theory Spec2Isabelle
  imports Complex_Main "HOL-Library.Word" "HOL-Library.AList" "HOL-Library.Multiset"
begin

unbundle bit_operations_syntax

section \<open>Data model\<close>

text \<open>
  A byte of a Python \<open>bytes\<close> object is an 8-bit word; Python's own integers
  (ids, types, flags, offsets) are unbounded and are modelled by \<open>int\<close>.
  Every exception the modelled functions can raise is a value of \<open>error\<close>.
\<close>

type_synonym byte = "8 word"

datatype error = TypeError | StructError | IndexError | KeyError

text \<open>
  The value stored under the key \<open>'sub'\<close> of a record's \<open>meta\<close> dictionary:
  the key may be missing, may hold \<open>None\<close> (\<open>_proteus_parse\<close> stores \<open>None\<close> for
  commands without a subcommand byte), or may hold an integer.
\<close>

datatype subval = Missing | NoneVal | IntVal int

text \<open>The \<open>meta\<close> dictionary of a record: one optional field per key the tools write.\<close>

record meta =
  family :: "byte option"
  dev :: "byte option"
  cmd :: "byte option"
  sub :: subval
  validChecksum :: "bool option"
  assembled :: "bool option"
  heuristic :: "bool option"
  idx :: "nat option"
  zmf1 :: "bool option"
  model :: "string option"
  source_id :: "int option"

definition empty_meta :: meta where
  "empty_meta = \<lparr>family = None, dev = None, cmd = None, sub = Missing, validChecksum = None,
     assembled = None, heuristic = None, idx = None, zmf1 = None, model = None,
     source_id = None\<rparr>"

text \<open>
  A record of the in-memory collection (a Python dict with keys \<open>id\<close>, \<open>type\<close>,
  \<open>flags\<close>, \<open>data\<close> and, optionally, \<open>meta\<close>).
\<close>

record entry =
  e_id :: int
  e_type :: int
  e_flags :: int
  e_meta :: "meta option"
  e_data :: "byte list"

text \<open>\<open>(e.get('meta') or {}).get('sub')\<close>\<close>

definition get_sub :: "entry \<Rightarrow> subval" where
  "get_sub e = (case e_meta e of None \<Rightarrow> Missing | Some m \<Rightarrow> sub m)"

text \<open>\<open>int(meta.get('sub') or 0)\<close>, as \<open>assemble_preset\<close> and the sidecar writer read it.\<close>

definition sub_or_0 :: "entry \<Rightarrow> int" where
  "sub_or_0 e = (case get_sub e of IntVal v \<Rightarrow> v | _ \<Rightarrow> 0)"

text \<open>\<open>max([e.get('id', 0) for e in entries] + [0]) + 1\<close>\<close>

definition next_id :: "entry list \<Rightarrow> int" where
  "next_id es = Max (set (map e_id es @ [0])) + 1"

text \<open>Python's slice \<open>xs[a:b]\<close> for \<open>0 \<le> a\<close>, \<open>0 \<le> b\<close>.\<close>

definition slice :: "'a list \<Rightarrow> nat \<Rightarrow> nat \<Rightarrow> 'a list" where
  "slice xs a b = take (b - a) (drop a xs)"

section \<open>Frame extraction and 7-bit unpacking\<close>

text \<open>\<open>extract_frames\<close> of sysex\_pack.py.\<close>

function extract_frames :: "byte list \<Rightarrow> byte list list" where
  "extract_frames [] = []"
| "extract_frames (b # rest) =
     (if b = 0xF0 then
        (case dropWhile (\<lambda>c. c \<noteq> 0xF7) rest of
           [] \<Rightarrow> extract_frames rest
         | e # rest' \<Rightarrow> (b # takeWhile (\<lambda>c. c \<noteq> 0xF7) rest @ [e]) # extract_frames rest')
      else extract_frames rest)"
  by pat_completeness auto
termination
proof (relation "measure length")
  fix b e :: byte and rest rest' :: "byte list"
  assume "dropWhile (\<lambda>c. c \<noteq> 0xF7) rest = e # rest'"
  then have "length (e # rest') \<le> length rest"
    by (metis length_dropWhile_le)
  then show "(rest', b # rest) \<in> measure length" by simp
qed auto

text \<open>\<open>iter_sysex_messages\<close> of syx\_tools.py.\<close>

function iter_sysex_messages :: "byte list \<Rightarrow> byte list list" where
  "iter_sysex_messages blob =
     (case dropWhile (\<lambda>c. c \<noteq> 0xF0) blob of
        [] \<Rightarrow> []
      | f # rest \<Rightarrow>
          (case dropWhile (\<lambda>c. c \<noteq> 0xF7) rest of
             [] \<Rightarrow> []
           | e # rest' \<Rightarrow>
               (f # takeWhile (\<lambda>c. c \<noteq> 0xF7) rest @ [e]) # iter_sysex_messages rest'))"
  by pat_completeness auto
termination
proof (relation "measure length")
  fix blob rest rest' :: "byte list" and f e :: byte
  assume a: "dropWhile (\<lambda>c. c \<noteq> 0xF0) blob = f # rest"
    and b: "dropWhile (\<lambda>c. c \<noteq> 0xF7) rest = e # rest'"
  from a have "length (f # rest) \<le> length blob"
    by (metis length_dropWhile_le)
  moreover from b have "length (e # rest') \<le> length rest"
    by (metis length_dropWhile_le)
  ultimately show "(rest', blob) \<in> measure length" by simp
qed auto

text \<open>
  \<open>unpack_7bit\<close> of syx\_tools.py: a lead byte, then up to seven data bytes whose high
  bits are the low bits of the lead byte.
\<close>

function unpack_7bit :: "byte list \<Rightarrow> byte list" where
  "unpack_7bit [] = []"
| "unpack_7bit (msb # rest) =
     map (\<lambda>(k, b). b OR push_bit 7 (drop_bit k msb AND 1)) (zip [0..<7] rest)
       @ unpack_7bit (drop 7 rest)"
  by pat_completeness auto
termination
  by (relation "measure length") auto

text \<open>The body of the loop of \<open>split_and_unpack\<close>, applied to one core \<open>m[1:-1]\<close>.\<close>

definition unpack_core :: "byte list \<Rightarrow> byte list" where
  "unpack_core core =
     (if \<exists>b \<in> set core. b AND 0x80 \<noteq> 0 then core else unpack_7bit core)"

definition split_and_unpack :: "byte list \<Rightarrow> byte list list" where
  "split_and_unpack raw = map (\<lambda>m. unpack_core (butlast (tl m))) (iter_sysex_messages raw)"

section \<open>Message canonicalizer\<close>

text \<open>
  The device specification (a JSON object): \<open>manufacturerId\<close> (a byte list, empty when
  the key is missing), \<open>familyId\<close>, \<open>editor\<close> and \<open>checksum.type\<close>.
\<close>

record devspec =
  manufacturerId :: "byte list"
  familyId :: "int option"
  editor :: "int option"
  checksum_type :: "string option"

text \<open>The dictionary \<open>_proteus_parse\<close> returns.\<close>

record parsed =
  p_family :: byte
  p_dev :: byte
  p_cmd :: byte
  p_sub :: "byte option"
  p_validChecksum :: bool
  p_data :: "byte list"

text \<open>\<open>(~(sum(b & 0x7F for b in data[:-1]) & 0x7F)) & 0x7F\<close>\<close>

definition checksum7 :: "byte list \<Rightarrow> int" where
  "checksum7 data =
     (NOT (sum_list (map (\<lambda>b. uint b AND 0x7F) (butlast data)) AND 0x7F)) AND 0x7F"

definition proteus_parse :: "byte list \<Rightarrow> devspec \<Rightarrow> parsed option" where
  "proteus_parse payload spec =
     (let mids = manufacturerId spec in
      (case familyId spec of None \<Rightarrow> None | Some fam \<Rightarrow>
      (case editor spec of None \<Rightarrow> None | Some editr \<Rightarrow>
      (if mids = [] then None
       else if length payload < length mids + 4 then None
       else if take (length mids) payload \<noteq> mids then None
       else
        (let off = length mids;
             fam_b = payload ! off;
             dev_id = payload ! (off + 1);
             ed = payload ! (off + 2);
             cmd_b = payload ! (off + 3);
             data = drop (off + 4) payload;
             sub_b = (if length data \<ge> 1 \<and> cmd_b \<in> {0x10, 0x11, 0x18, 0x1A, 0x1B, 0x61}
                      then Some (data ! 0) else None)
         in
          (if uint fam_b \<noteq> fam \<or> uint ed \<noteq> editr then None
           else if checksum_type spec = Some ''ones_complement_7bit'' \<and> length data \<ge> 1
                  \<and> (uint (last data) AND 0x7F) \<noteq> 0x7F
                  \<and> checksum7 data \<noteq> (uint (last data) AND 0x7F)
           then Some \<lparr>p_family = fam_b, p_dev = dev_id, p_cmd = cmd_b, p_sub = sub_b,
                       p_validChecksum = False, p_data = data\<rparr>
           else Some \<lparr>p_family = fam_b, p_dev = dev_id, p_cmd = cmd_b, p_sub = sub_b,
                       p_validChecksum = True, p_data = data\<rparr>))))))"

text \<open>The \<open>meta\<close> dictionary \<open>canonize\<close> builds: every key of the parse result but \<open>data\<close>.\<close>

definition meta_of_parsed :: "parsed \<Rightarrow> meta" where
  "meta_of_parsed p = empty_meta\<lparr>family := Some (p_family p), dev := Some (p_dev p),
     cmd := Some (p_cmd p),
     sub := (case p_sub p of None \<Rightarrow> NoneVal | Some b \<Rightarrow> IntVal (uint b)),
     validChecksum := Some (p_validChecksum p)\<rparr>"

text \<open>
  \<open>canonize\<close>: the loop over \<open>enumerate(frames)\<close>, with the running index explicit.
  The parsing branch is taken when a specification with a \<open>familyId\<close> is given.
\<close>

fun canonize_from :: "nat \<Rightarrow> byte list list \<Rightarrow> devspec option \<Rightarrow> entry list" where
  "canonize_from i [] spec = []"
| "canonize_from i (f # fs) spec =
     (let payload = (if length f \<ge> 2 then butlast (tl f) else []) in
      case (case spec of None \<Rightarrow> None
            | Some sp \<Rightarrow> (if familyId sp \<noteq> None then Some sp else None)) of
        Some sp \<Rightarrow>
          (case proteus_parse payload sp of
             None \<Rightarrow> canonize_from (Suc i) fs spec
           | Some m \<Rightarrow>
               \<lparr>e_id = int i, e_type = uint (p_cmd m), e_flags = 0,
                e_meta = Some (meta_of_parsed m), e_data = p_data m\<rparr>
                 # canonize_from (Suc i) fs spec)
      | None \<Rightarrow>
          \<lparr>e_id = int i, e_type = 0, e_flags = 0, e_meta = None, e_data = payload\<rparr>
            # canonize_from (Suc i) fs spec)"

definition canonize :: "byte list list \<Rightarrow> devspec option \<Rightarrow> entry list" where
  "canonize frames spec = canonize_from 0 frames spec"

section \<open>Preset assembler\<close>

text \<open>A continuation packet: \<open>t == 0x10 and sub in (0x02, 0x04) and len(data) >= 3\<close>.\<close>

definition is_packet :: "entry \<Rightarrow> bool" where
  "is_packet e \<longleftrightarrow> e_type e = 0x10 \<and> (sub_or_0 e = 0x02 \<or> sub_or_0 e = 0x04)
     \<and> length (e_data e) \<ge> 3"

text \<open>\<open>seq = data[0] | (data[1] << 7)\<close> and \<open>payload = data[2:-1]\<close>.\<close>

definition seq_of :: "entry \<Rightarrow> int" where
  "seq_of e = uint (e_data e ! 0) OR push_bit 7 (uint (e_data e ! 1))"

definition payload_of :: "entry \<Rightarrow> byte list" where
  "payload_of e = butlast (drop 2 (e_data e))"

text \<open>
  The dictionary \<open>groups[0]\<close>, as an association list in insertion order: storing under
  a key that is already present replaces its value and keeps its place, as a Python
  dict does.
\<close>

fun collect_parts :: "entry list \<Rightarrow> (int \<times> byte list) list \<Rightarrow> (int \<times> byte list) list" where
  "collect_parts [] parts = parts"
| "collect_parts (e # es) parts =
     (if is_packet e then collect_parts es (AList.update (seq_of e) (payload_of e) parts)
      else collect_parts es parts)"

text \<open>
  \<open>assemble_preset\<close>. \<open>groups\<close> is non-empty exactly when a packet was stored; the
  record is appended only when the concatenation is a non-empty byte string
  (\<open>if assembled:\<close>). The list \<open>headers\<close> of the source is never read.
\<close>

definition assemble_preset :: "entry list \<Rightarrow> entry list" where
  "assemble_preset entries =
     (let parts = collect_parts entries [];
          assembled_bytes = concat (map (\<lambda>i. case map_of parts i of Some p \<Rightarrow> p | None \<Rightarrow> [])
                                   (sort (map fst parts)))
      in if parts \<noteq> [] \<and> assembled_bytes \<noteq> [] then
           entries @ [\<lparr>e_id = next_id entries, e_type = 0x10, e_flags = 0,
                       e_meta = Some (empty_meta\<lparr>sub := IntVal 0xFE, assembled := Some True\<rparr>),
                       e_data = assembled_bytes\<rparr>]
         else entries)"

section \<open>Header-driven segmenter\<close>

record counts =
  PCGen :: byte
  Reserved :: byte
  PCEfx :: byte
  PCLinks :: byte
  Layers :: byte
  LayGen :: byte
  LayFilt :: byte
  LayLFO :: byte
  LayEnv :: byte
  LayCords :: byte

record preset_header =
  h_sub :: byte
  h_preset :: int
  h_data_bytes :: int
  h_counts :: counts

definition parse_preset_header_blob :: "byte list \<Rightarrow> preset_header option" where
  "parse_preset_header_blob blob =
     (if length blob < 1 + 2 + 4 + 10 then None
      else Some \<lparr>h_sub = blob ! 0,
                 h_preset = uint (blob ! 1) OR push_bit 8 (uint (blob ! 2)),
                 h_data_bytes = uint (blob ! 3) OR push_bit 8 (uint (blob ! 4))
                                 OR push_bit 16 (uint (blob ! 5)) OR push_bit 24 (uint (blob ! 6)),
                 h_counts = \<lparr>PCGen = blob ! 7, Reserved = blob ! 8, PCEfx = blob ! 9,
                   PCLinks = blob ! 10, Layers = blob ! 11, LayGen = blob ! 12,
                   LayFilt = blob ! 13, LayLFO = blob ! 14, LayEnv = blob ! 15,
                   LayCords = blob ! 16\<rparr>\<rparr>)"

definition is_header :: "entry \<Rightarrow> bool" where
  "is_header e \<longleftrightarrow> e_type e = 0x10 \<and> get_sub e = IntVal 0x01"

definition is_assembled :: "entry \<Rightarrow> bool" where
  "is_assembled e \<longleftrightarrow> e_type e = 0x10 \<and> get_sub e = IntVal 0xFE"

text \<open>The loop \<open>for i in range(lay_filt)\<close>, with the running \<open>next_id\<close>.\<close>

fun segment_loop :: "nat list \<Rightarrow> byte list \<Rightarrow> int \<Rightarrow> entry list \<Rightarrow> entry list" where
  "segment_loop [] filt_blob nid entries = entries"
| "segment_loop (i # is) filt_blob nid entries =
     segment_loop is filt_blob (nid + 1)
       (entries @ [\<lparr>e_id = nid, e_type = 0x10, e_flags = 0,
                    e_meta = Some (empty_meta\<lparr>sub := IntVal 0x22, heuristic := Some True,
                                               idx := Some i\<rparr>),
                    e_data = slice filt_blob (i * 14) ((i + 1) * 14)\<rparr>])"

definition segment_assembled :: "entry list \<Rightarrow> entry list" where
  "segment_assembled entries =
     (case find is_header entries of None \<Rightarrow> entries | Some header \<Rightarrow>
     (case find is_assembled entries of None \<Rightarrow> entries | Some asm \<Rightarrow>
     (let hdr_data = e_data header; asm_data = e_data asm in
     (case parse_preset_header_blob hdr_data of None \<Rightarrow> entries | Some hdr \<Rightarrow>
     (let lay_filt = unat (LayFilt (h_counts hdr));
          lay_env = unat (LayEnv (h_counts hdr));
          need = lay_filt * 14 + lay_env * 92
      in (if need = 0 \<or> need > length asm_data then entries
          else
           (let tail = drop (length asm_data - need) asm_data;
                filt_blob = take (lay_filt * 14) tail
            in segment_loop [0..<lay_filt] filt_blob (next_id entries) entries)))))))"

section \<open>Coefficient synthesizer\<close>

text \<open>
  \<open>poles_to_biquad_coeffs\<close>, with Python's floats read as exact real numbers: the
  result is \<open>(b0, b1, b2, a1, a2)\<close>, \<open>a1\<close> and \<open>a2\<close> clamped. The parameter
  \<open>sample_rate\<close> of the source is never read.
\<close>

definition poles_to_biquad_coeffs :: "real \<Rightarrow> real \<Rightarrow> real \<times> real \<times> real \<times> real \<times> real" where
  "poles_to_biquad_coeffs r theta =
     (let a1 = - 2.0 * r * cos theta;
          a2 = r * r;
          b0 = (1.0 - r) * 0.5;
          b1 = 0.0;
          b2 = - b0;
          a1' = max (- 1.999) (min 1.999 a1);
          a2' = max (- 0.999) (min 0.999 a2)
      in (b0, b1, b2, a1', a2'))"

definition coeff_a1 :: "real \<times> real \<times> real \<times> real \<times> real \<Rightarrow> real" where
  "coeff_a1 c = fst (snd (snd (snd c)))"

definition coeff_a2 :: "real \<times> real \<times> real \<times> real \<times> real \<Rightarrow> real" where
  "coeff_a2 c = snd (snd (snd (snd c)))"

text \<open>
  \<open>augment_with_zmf1\<close>. The loaded \<open>models.json\<close> is a parameter: \<open>None\<close> when
  \<open>load_zplane_models\<close> returns nothing (or an empty object), otherwise the table under
  its key \<open>'models'\<close> (\<open>None\<close> when the key is missing, a \<open>KeyError\<close> on access).
  \<open>generate_zmf1_entry\<close> serialises IEEE floats with \<open>struct.pack\<close>; the bytes it
  returns for a model index and a model are the parameter \<open>gen\<close>.
\<close>

definition model_names :: "string list" where
  "model_names = [''vowel_pair'', ''bell_pair'', ''low_pair'']"

fun augment_loop ::
  "entry list \<Rightarrow> (string \<times> 'm) list option \<Rightarrow> (nat \<Rightarrow> 'm \<Rightarrow> error + byte list)
     \<Rightarrow> int \<Rightarrow> entry list \<Rightarrow> error + entry list" where
  "augment_loop [] tbl gen nid augmented = Inr augmented"
| "augment_loop (e # rest) tbl gen nid augmented =
     (if e_type e = 0x10 \<and> get_sub e = IntVal 0x22 \<and> length (e_data e) \<ge> 14 then
        (let model_idx = unat (e_data e ! 0) mod 3;
             model_name = model_names ! model_idx
         in (case tbl of None \<Rightarrow> Inl KeyError | Some t \<Rightarrow>
            (case map_of t model_name of
               None \<Rightarrow> augment_loop rest tbl gen nid augmented
             | Some model_data \<Rightarrow>
                (case gen model_idx model_data of
                   Inl err \<Rightarrow> Inl err
                 | Inr zmf1_data \<Rightarrow>
                     augment_loop rest tbl gen (nid + 1)
                       (augmented @ [\<lparr>e_id = nid, e_type = 0x5A4D, e_flags = 0x4631,
                          e_meta = Some (empty_meta\<lparr>zmf1 := Some True,
                                     model := Some model_name, source_id := Some (e_id e)\<rparr>),
                          e_data = zmf1_data\<rparr>])))))
      else augment_loop rest tbl gen nid augmented)"

definition augment_with_zmf1 ::
  "entry list \<Rightarrow> (string \<times> 'm) list option option \<Rightarrow> (nat \<Rightarrow> 'm \<Rightarrow> error + byte list)
     \<Rightarrow> error + entry list" where
  "augment_with_zmf1 entries models gen =
     (case models of None \<Rightarrow> Inr entries
      | Some tbl \<Rightarrow> augment_loop entries tbl gen (next_id entries) entries)"

section \<open>Container packer\<close>

text \<open>\<open>struct\<close>'s little-endian unsigned fields: \<open>k\<close> bytes of a value, and back.\<close>

fun le_bytes :: "nat \<Rightarrow> int \<Rightarrow> byte list" where
  "le_bytes 0 v = []"
| "le_bytes (Suc k) v = word_of_int v # le_bytes k (v div 256)"

fun le_val :: "byte list \<Rightarrow> int" where
  "le_val [] = 0"
| "le_val (b # bs) = uint b + 256 * le_val bs"

text \<open>
  \<open>struct.pack\<close> for a format of unsigned fields given by their sizes in bytes:
  \<open>struct.error\<close> when a value does not fit its field.
\<close>

definition struct_pack :: "nat list \<Rightarrow> int list \<Rightarrow> error + byte list" where
  "struct_pack fmt vs =
     (if list_all2 (\<lambda>k v. 0 \<le> v \<and> v < 256 ^ k) fmt vs
      then Inr (concat (map2 le_bytes fmt vs)) else Inl StructError)"

fun unpack_fields :: "nat list \<Rightarrow> byte list \<Rightarrow> int list" where
  "unpack_fields [] bs = []"
| "unpack_fields (k # ks) bs = le_val (take k bs) # unpack_fields ks (drop k bs)"

text \<open>\<open>struct.unpack_from\<close>: \<open>struct.error\<close> when the buffer ends before the fields do.\<close>

definition unpack_from :: "nat list \<Rightarrow> byte list \<Rightarrow> nat \<Rightarrow> error + int list" where
  "unpack_from fmt b off =
     (if off + sum_list fmt \<le> length b then Inr (unpack_fields fmt (drop off b))
      else Inl StructError)"

definition MAGIC :: "byte list" where
  "MAGIC = [0x5A, 0x50, 0x4B, 0x31]"

definition entry_fmt :: "nat list" where
  "entry_fmt = [4, 2, 2, 2, 4, 4]"

text \<open>\<open>int((e.get('meta', {}) or {}).get('sub', 0))\<close>: \<open>int(None)\<close> is a \<open>TypeError\<close>.\<close>

definition pack_sub :: "entry \<Rightarrow> error + int" where
  "pack_sub e = (case get_sub e of Missing \<Rightarrow> Inr 0 | NoneVal \<Rightarrow> Inl TypeError
                 | IntVal v \<Rightarrow> Inr v)"

text \<open>The loop of \<open>pack\<close>, with its running \<open>offset\<close>, \<open>table\<close> and \<open>blobs\<close>.\<close>

fun pack_loop ::
  "entry list \<Rightarrow> int \<Rightarrow> byte list \<Rightarrow> byte list \<Rightarrow> error + (byte list \<times> byte list)" where
  "pack_loop [] offset table blobs = Inr (table, blobs)"
| "pack_loop (e # es) offset table blobs =
     (case pack_sub e of Inl err \<Rightarrow> Inl err | Inr sb \<Rightarrow>
     (case struct_pack entry_fmt
             [e_id e, e_type e, sb, e_flags e, offset, int (length (e_data e))] of
        Inl err \<Rightarrow> Inl err
      | Inr row \<Rightarrow>
          pack_loop es (offset + int (length (e_data e))) (table @ row) (blobs @ e_data e)))"

definition pack :: "entry list \<Rightarrow> error + byte list" where
  "pack entries =
     (case struct_pack [2] [1] of Inl err \<Rightarrow> Inl err | Inr ver \<Rightarrow>
     (case struct_pack [2] [int (length entries)] of Inl err \<Rightarrow> Inl err | Inr cnt \<Rightarrow>
     (let header = MAGIC @ ver @ cnt;
          entry_size = 4 + 2 + 2 + 2 + 4 + 4;
          offset = 4 + 2 + 2 + int (length entries) * entry_size
      in (case pack_loop entries offset [] [] of
            Inl err \<Rightarrow> Inl err
          | Inr (table, blobs) \<Rightarrow> Inr (header @ table @ blobs)))))"

section \<open>Index and query readers\<close>

text \<open>An entry as the readers decode it from the table.\<close>

record index_entry =
  x_id :: int
  x_type :: int
  x_sub :: int
  x_flags :: int
  x_offset :: int
  x_length :: int

definition index_entry_of :: "int list \<Rightarrow> index_entry" where
  "index_entry_of r = \<lparr>x_id = r ! 0, x_type = r ! 1, x_sub = r ! 2, x_flags = r ! 3,
                        x_offset = r ! 4, x_length = r ! 5\<rparr>"

text \<open>
  \<open>scan_pack\<close> of pack\_index.py, on the bytes of the file: \<open>Inr None\<close> is the return
  value \<open>None\<close>, \<open>Inl\<close> an exception.
\<close>

fun index_loop ::
  "byte list \<Rightarrow> nat \<Rightarrow> nat list \<Rightarrow> index_entry list \<Rightarrow> error + index_entry list" where
  "index_loop b esz [] entries = Inr entries"
| "index_loop b esz (i # is) entries =
     (case unpack_from entry_fmt b (8 + i * esz) of
        Inl err \<Rightarrow> Inl err
      | Inr r \<Rightarrow> index_loop b esz is (entries @ [index_entry_of r]))"

definition pack_index_scan_pack :: "byte list \<Rightarrow> error + index_entry list option" where
  "pack_index_scan_pack b =
     (if take 4 b \<noteq> MAGIC then Inr None
      else (case unpack_from [2, 2] b 4 of
              Inl err \<Rightarrow> Inl err
            | Inr hv \<Rightarrow>
               (let ver = hv ! 0; count = hv ! 1 in
                (if ver \<noteq> 1 then Inr None
                 else (case index_loop b (4 + 2 + 2 + 2 + 4 + 4) [0..<nat count] [] of
                         Inl err \<Rightarrow> Inl err
                       | Inr entries \<Rightarrow> Inr (Some entries))))))"

text \<open>
  \<open>scan_pack\<close> of dump\_layer\_filters.py: the items for entries of type 0x10, subtype
  0x22 and length 14. Indexing the slice \<open>data\<close> past its end is an \<open>IndexError\<close>.
\<close>

record filter_decode =
  filterType :: byte
  cutoff :: byte
  q :: byte
  morphIndex :: byte
  morphDepth :: byte
  tilt :: int
  reserved :: "byte list"

record filter_item =
  f_id :: int
  f_type :: int
  f_sub :: int
  f_bytes :: "byte list"
  f_decode :: filter_decode

fun filters_loop ::
  "byte list \<Rightarrow> nat \<Rightarrow> nat list \<Rightarrow> filter_item list \<Rightarrow> error + filter_item list" where
  "filters_loop b esz [] out = Inr out"
| "filters_loop b esz (i # is) out =
     (case unpack_from entry_fmt b (8 + i * esz) of
        Inl err \<Rightarrow> Inl err
      | Inr r \<Rightarrow>
         (let ident = r ! 0; typ = r ! 1; sb = r ! 2; offd = r ! 4; ln = r ! 5 in
          (if typ = 0x10 \<and> sb = 0x22 \<and> ln = 14 then
             (let data = slice b (nat offd) (nat (offd + ln)) in
              (if length data < 6 then Inl IndexError
               else filters_loop b esz is
                      (out @ [\<lparr>f_id = ident, f_type = typ, f_sub = sb, f_bytes = data,
                         f_decode = \<lparr>filterType = data ! 0, cutoff = data ! 1, q = data ! 2,
                           morphIndex = data ! 3, morphDepth = data ! 4,
                           tilt = (if uint (data ! 5) < 128 then uint (data ! 5)
                                   else uint (data ! 5) - 256),
                           reserved = slice data 6 14\<rparr>\<rparr>])))
           else filters_loop b esz is out)))"

definition dump_layer_filters_scan_pack :: "byte list \<Rightarrow> error + filter_item list" where
  "dump_layer_filters_scan_pack b =
     (if take 4 b \<noteq> MAGIC then Inr []
      else (case unpack_from [2, 2] b 4 of
              Inl err \<Rightarrow> Inl err
            | Inr hv \<Rightarrow>
               (let ver = hv ! 0; count = hv ! 1 in
                (if ver \<noteq> 1 then Inr []
                 else filters_loop b (4 + 2 + 2 + 2 + 4 + 4) [0..<nat count] []))))"

section \<open>The pipeline of \<open>main\<close>\<close>

definition pipeline ::
  "byte list \<Rightarrow> devspec option \<Rightarrow> (string \<times> 'm) list option option
     \<Rightarrow> (nat \<Rightarrow> 'm \<Rightarrow> error + byte list) \<Rightarrow> error + entry list" where
  "pipeline raw spec models gen =
     augment_with_zmf1
       (segment_assembled (assemble_preset (canonize (extract_frames raw) spec))) models gen"

section \<open>Notions used in the statements and proofs\<close>

text \<open>
  The value of \<open>offset\<close> in \<open>pack\<close> when its loop reaches entry \<open>i\<close>: the header, the
  table and the data of the entries before.
\<close>

definition entry_offset :: "entry list \<Rightarrow> nat \<Rightarrow> int" where
  "entry_offset es i =
     4 + 2 + 2 + int (length es) * (4 + 2 + 2 + 2 + 4 + 4) + sum_list (map (\<lambda>e. int (length (e_data e))) (take i es))"

text \<open>
  The field values of a collection fit the widths of the container: at most 65535
  records; ids, offsets and data lengths below \<open>2^32\<close>; types, subtypes and flags below
  \<open>2^16\<close>, none negative, the subtype an integer or missing.
\<close>

definition fits_widths :: "entry list \<Rightarrow> bool" where
  "fits_widths es \<longleftrightarrow>
     length es \<le> 65535 \<and>
     list_all (\<lambda>i.
        0 \<le> e_id (es ! i) \<and> e_id (es ! i) < 2 ^ 32 \<and>
        0 \<le> e_type (es ! i) \<and> e_type (es ! i) < 2 ^ 16 \<and>
        (case get_sub (es ! i) of Missing \<Rightarrow> True | NoneVal \<Rightarrow> False
         | IntVal v \<Rightarrow> 0 \<le> v \<and> v < 2 ^ 16) \<and>
        0 \<le> e_flags (es ! i) \<and> e_flags (es ! i) < 2 ^ 16 \<and>
        entry_offset es i < 2 ^ 32 \<and>
        int (length (e_data (es ! i))) < 2 ^ 32) [0..<length es]"

text \<open>The argument tuples of \<open>struct.pack('<IHHHII', ...)\<close> in the loop of \<open>pack\<close>.\<close>

fun table_rows :: "entry list \<Rightarrow> int \<Rightarrow> int list list" where
  "table_rows [] off = []"
| "table_rows (e # es) off =
     [e_id e, e_type e, sub_or_0 e, e_flags e, off, int (length (e_data e))]
       # table_rows es (off + int (length (e_data e)))"

definition enc_row :: "int list \<Rightarrow> byte list" where
  "enc_row r = concat (map2 le_bytes entry_fmt r)"

definition row_ok :: "int list \<Rightarrow> bool" where
  "row_ok r \<longleftrightarrow> list_all2 (\<lambda>k v. 0 \<le> v \<and> v < 256 ^ k) entry_fmt r"

definition rows_ok :: "entry list \<Rightarrow> int \<Rightarrow> bool" where
  "rows_ok es off \<longleftrightarrow> (\<forall>e \<in> set es. get_sub e \<noteq> NoneVal) \<and> (\<forall>r \<in> set (table_rows es off). row_ok r)"

text \<open>
  The records \<open>new\<close> appended to a collection \<open>es\<close> have the ids
  \<open>max(ids + [0]) + 1\<close>, counting up by one.
\<close>

definition fresh_ids :: "entry list \<Rightarrow> entry list \<Rightarrow> bool" where
  "fresh_ids es new \<longleftrightarrow> map e_id new = map (\<lambda>j. next_id es + int j) [0..<length new]"

section \<open>The payload unpacker\<close>

lemma length_unpack_7bit: "length (unpack_7bit xs) = length xs - (length xs + 7) div 8"
proof (induction xs rule: unpack_7bit.induct)
  case 1
  then show ?case by simp
next
  case (2 msb rest)
  show ?case
  proof (cases "7 \<le> length rest")
    case True
    with 2 show ?thesis by simp
  next
    case False
    with 2 show ?thesis by simp
  qed
qed

lemma nth_unpack_7bit:
  "k < 7 \<Longrightarrow> 8 * g + 1 + k < length xs \<Longrightarrow>
   unpack_7bit xs ! (7 * g + k) = xs ! (8 * g + 1 + k) OR push_bit 7 (drop_bit k (xs ! (8 * g)) AND 1)"
proof (induction g arbitrary: xs)
  case 0
  then obtain msb rest where xs: "xs = msb # rest" by (cases xs) auto
  with 0 have k: "k < length rest" by simp
  with 0 have "k < length (zip [0..<7] rest)" by simp
  then show ?case using k 0 by (simp add: xs nth_append)
next
  case (Suc g)
  then obtain msb rest where xs: "xs = msb # rest" by (cases xs) auto
  with Suc.prems have len: "8 * g + 8 + k < length rest" by simp
  then have l7: "length (zip [0..<7] rest) = 7" by simp
  have ih: "unpack_7bit (drop 7 rest) ! (7 * g + k) =
      drop 7 rest ! (8 * g + 1 + k) OR push_bit 7 (drop_bit k (drop 7 rest ! (8 * g)) AND 1)"
    using Suc.prems len by (intro Suc.IH) auto
  have "unpack_7bit xs ! (7 * Suc g + k) = unpack_7bit (drop 7 rest) ! (7 * g + k)"
    using l7 by (simp add: xs nth_append)
  also note ih
  finally show ?case using len by (simp add: xs add.commute add.left_commute)
qed

lemma unpack_7bit_trailing:
  "length xs mod 8 = 1 \<Longrightarrow> unpack_7bit xs = unpack_7bit (butlast xs)"
proof (induction xs rule: unpack_7bit.induct)
  case 1
  then show ?case by simp
next
  case (2 msb rest)
  show ?case
  proof (cases "rest = []")
    case True
    then show ?thesis by simp
  next
    case False
    from "2.prems" have "Suc (length rest) mod 8 = 1" by simp
    then have m: "length rest mod 8 = 0" by presburger
    then obtain n where n: "length rest = 8 * n" by (auto simp: mod_eq_0_iff_dvd)
    have n0: "n \<noteq> 0"
    proof
      assume "n = 0"
      with n have "length rest = 0" by simp
      with False show False by simp
    qed
    then obtain n' where n': "n = Suc n'" by (cases n) auto
    have len8: "8 \<le> length rest" by (simp add: n n')
    have "length rest - 7 = 8 * n' + 1" by (simp add: n n')
    then have len: "(length rest - 7) mod 8 = 1" by simp
    then have "length (drop 7 rest) mod 8 = 1" by simp
    then have ih: "unpack_7bit (drop 7 rest) = unpack_7bit (butlast (drop 7 rest))"
      by (rule "2.IH")
    have z: "zip [0..<7] (butlast rest) = zip [0..<7] rest"
      using len8 by (intro nth_equalityI) (auto simp: nth_butlast)
    have b: "butlast (msb # rest) = msb # butlast rest" using False by simp
    have d: "butlast (drop 7 rest) = drop 7 (butlast rest)" by (simp add: butlast_drop)
    show ?thesis unfolding b by (simp add: z ih d)
  qed
qed

text \<open>
  Claim C7 (payload unpacker). For every core byte sequence: if some byte has its high
  bit set, the unpacker returns the core unchanged, so unpacking again changes nothing;
  otherwise output byte \<open>k\<close> of group \<open>g\<close> is the data byte \<open>k\<close> of that group
  with bit \<open>k\<close> of the group's lead byte as its high bit, the output has one byte per
  data byte (a lead byte is never output), and a trailing group that is a lead byte
  alone contributes nothing. In both cases the output is no longer than the input.
\<close>

theorem unpack_core_spec:
  "(if \<exists>b \<in> set core. b AND 0x80 \<noteq> 0
    then unpack_core core = core \<and> unpack_core (unpack_core core) = unpack_core core
    else (\<forall>g k. k < 7 \<and> 8 * g + 1 + k < length core \<longrightarrow>
            unpack_core core ! (7 * g + k)
              = core ! (8 * g + 1 + k) OR push_bit 7 (drop_bit k (core ! (8 * g)) AND 1))
         \<and> length (unpack_core core) = length core - (length core + 7) div 8
         \<and> (length core mod 8 = 1 \<longrightarrow> unpack_core core = unpack_core (butlast core)))
   \<and> length (unpack_core core) \<le> length core"
proof (cases "\<exists>b \<in> set core. b AND 0x80 \<noteq> 0")
  case True
  then show ?thesis by (simp add: unpack_core_def)
next
  case False
  then have bl: "\<not> (\<exists>b \<in> set (butlast core). b AND 0x80 \<noteq> 0)"
    by (meson in_set_butlastD)
  from False have u: "unpack_core core = unpack_7bit core"
    by (simp add: unpack_core_def)
  from bl have ub: "unpack_core (butlast core) = unpack_7bit (butlast core)"
    by (simp add: unpack_core_def)
  show ?thesis
    using False by (simp add: u ub length_unpack_7bit nth_unpack_7bit unpack_7bit_trailing)
qed

text \<open>
  The theorem at a packed core of nine bytes (one full group and a lone lead byte) and
  at a dense core.
\<close>

theorem unpack_core_spec_witness:
  "\<not> (\<exists>b \<in> set [0x03, 1, 2, 3, 4, 5, 6, 7, 0x01 :: byte]. b AND 0x80 \<noteq> 0)
   \<and> unpack_core [0x03, 1, 2, 3, 4, 5, 6, 7, 0x01] ! 0 = 0x81
   \<and> unpack_core [0x03, 1, 2, 3, 4, 5, 6, 7, 0x01] ! 1 = 0x82
   \<and> length (unpack_core [0x03, 1, 2, 3, 4, 5, 6, 7, 0x01]) = 7
   \<and> (\<exists>b \<in> set [0x83, 1, 2 :: byte]. b AND 0x80 \<noteq> 0)
   \<and> unpack_core [0x83, 1, 2] = [0x83, 1, 2]"
proof -
  let ?xs = "[0x03, 1, 2, 3, 4, 5, 6, 7, 0x01] :: byte list"
  let ?ys = "[0x83, 1, 2] :: byte list"
  have nb: "\<not> (\<exists>b \<in> set ?xs. b AND 0x80 \<noteq> 0)" by simp
  have hb: "\<exists>b \<in> set ?ys. b AND 0x80 \<noteq> 0" by simp
  from unpack_core_spec [of ?xs]
  have "if \<exists>b \<in> set ?xs. b AND 0x80 \<noteq> 0
    then unpack_core ?xs = ?xs \<and> unpack_core (unpack_core ?xs) = unpack_core ?xs
    else (\<forall>g k. k < 7 \<and> 8 * g + 1 + k < length ?xs \<longrightarrow>
            unpack_core ?xs ! (7 * g + k)
              = ?xs ! (8 * g + 1 + k) OR push_bit 7 (drop_bit k (?xs ! (8 * g)) AND 1))
         \<and> length (unpack_core ?xs) = length ?xs - (length ?xs + 7) div 8
         \<and> (length ?xs mod 8 = 1 \<longrightarrow> unpack_core ?xs = unpack_core (butlast ?xs))"
    by (rule conjunct1)
  then have e: "(\<forall>g k. k < 7 \<and> 8 * g + 1 + k < length ?xs \<longrightarrow>
            unpack_core ?xs ! (7 * g + k)
              = ?xs ! (8 * g + 1 + k) OR push_bit 7 (drop_bit k (?xs ! (8 * g)) AND 1))
         \<and> length (unpack_core ?xs) = length ?xs - (length ?xs + 7) div 8
         \<and> (length ?xs mod 8 = 1 \<longrightarrow> unpack_core ?xs = unpack_core (butlast ?xs))"
    unfolding if_not_P [OF nb] .
  from e have nth: "\<And>g k. k < 7 \<and> 8 * g + 1 + k < length ?xs \<longrightarrow>
      unpack_core ?xs ! (7 * g + k)
        = ?xs ! (8 * g + 1 + k) OR push_bit 7 (drop_bit k (?xs ! (8 * g)) AND 1)"
    by blast
  from e have len: "length (unpack_core ?xs) = length ?xs - (length ?xs + 7) div 8"
    by (rule conjunct2 [THEN conjunct1])
  from unpack_core_spec [of ?ys]
  have "if \<exists>b \<in> set ?ys. b AND 0x80 \<noteq> 0
    then unpack_core ?ys = ?ys \<and> unpack_core (unpack_core ?ys) = unpack_core ?ys
    else (\<forall>g k. k < 7 \<and> 8 * g + 1 + k < length ?ys \<longrightarrow>
            unpack_core ?ys ! (7 * g + k)
              = ?ys ! (8 * g + 1 + k) OR push_bit 7 (drop_bit k (?ys ! (8 * g)) AND 1))
         \<and> length (unpack_core ?ys) = length ?ys - (length ?ys + 7) div 8
         \<and> (length ?ys mod 8 = 1 \<longrightarrow> unpack_core ?ys = unpack_core (butlast ?ys))"
    by (rule conjunct1)
  then have "unpack_core ?ys = ?ys \<and> unpack_core (unpack_core ?ys) = unpack_core ?ys"
    unfolding if_P [OF hb] .
  then have dense: "unpack_core ?ys = ?ys"
    by (rule conjunct1)
  from nth [of 0 0] have n0: "unpack_core ?xs ! 0 = 0x81" by simp
  from nth [of 1 0] have n1: "unpack_core ?xs ! 1 = 0x82" by simp
  from len have l: "length (unpack_core ?xs) = 7" by simp
  show ?thesis
    by (intro conjI nb n0 n1 l hb dense)
qed

section \<open>The canonicalizer's checksum\<close>

lemma not_and_mask7: "(NOT (s AND 0x7F)) AND 0x7F = (NOT s) AND (0x7F :: int)"
proof -
  have m: "(0x7F :: int) = mask 7" by (simp add: mask_eq_exp_minus_1)
  show ?thesis unfolding m
    by (rule bit_eqI) (auto simp: bit_simps)
qed

lemma checksum7_eq:
  "checksum7 data = (NOT (sum_list (map (\<lambda>b. uint b AND 0x7F) (butlast data)))) AND 0x7F"
  unfolding checksum7_def by (rule not_and_mask7)

lemma proteus_parse_frame:
  assumes mids: "manufacturerId spec = mids" "mids \<noteq> []"
    and fam: "familyId spec = Some (uint fam_b)"
    and ed: "editor spec = Some (uint ed_b)"
    and payload: "payload = mids @ [fam_b, dev_b, ed_b, cmd_b] @ data"
  shows "proteus_parse payload spec =
     Some \<lparr>p_family = fam_b, p_dev = dev_b, p_cmd = cmd_b,
       p_sub = (if data \<noteq> [] \<and> cmd_b \<in> {0x10, 0x11, 0x18, 0x1A, 0x1B, 0x61}
                then Some (hd data) else None),
       p_validChecksum =
         (\<not> (checksum_type spec = Some ''ones_complement_7bit'' \<and> data \<noteq> []
              \<and> (uint (last data) AND 0x7F) \<noteq> 0x7F
              \<and> checksum7 data \<noteq> (uint (last data) AND 0x7F))),
       p_data = data\<rparr>"
proof -
  have d: "drop (length mids + 4) payload = data" by (simp add: payload)
  have n: "payload ! length mids = fam_b" "payload ! (length mids + 1) = dev_b"
    "payload ! (length mids + 2) = ed_b" "payload ! (length mids + 3) = cmd_b"
    by (simp_all add: payload nth_append)
  have t: "take (length mids) payload = mids" by (simp add: payload)
  have l: "\<not> length payload < length mids + 4" by (simp add: payload)
  have h: "data \<noteq> [] \<Longrightarrow> data ! 0 = hd data" by (simp add: hd_conv_nth)
  have l1: "(1 \<le> length data) = (data \<noteq> [])" by (cases data) auto
  show ?thesis
    unfolding proteus_parse_def Let_def mids fam ed option.case d n t l1
    using mids(2) l h by (auto simp del: insert_iff)
qed


text \<open>
  Claim C6 (checksum validation). For a frame that matches a device specification with
  checksum type \<open>ones_complement_7bit\<close> and has a non-empty body \<open>data\<close>, the
  canonicalizer keeps a record whatever the checksum is, with the frame's index as id,
  and the record's \<open>validChecksum\<close> is true exactly when the trailer
  \<open>data[-1] & 0x7F\<close> is the sentinel \<open>0x7F\<close> or equals
  \<open>(~sum(b & 0x7F for b in data[:-1])) & 0x7F\<close>; so a mismatch gives a kept record
  with \<open>validChecksum = False\<close>.
\<close>

theorem checksum_validation:
  assumes mids: "manufacturerId spec = mids" "mids \<noteq> []"
    and fam: "familyId spec = Some (uint fam_b)"
    and ed: "editor spec = Some (uint ed_b)"
    and chk: "checksum_type spec = Some ''ones_complement_7bit''"
    and frame: "f = [0xF0] @ mids @ [fam_b, dev_b, ed_b, cmd_b] @ data @ [0xF7]"
    and data: "data \<noteq> []"
  shows "canonize_from i (f # fs) (Some spec) =
     \<lparr>e_id = int i, e_type = uint cmd_b, e_flags = 0,
      e_meta = Some (empty_meta\<lparr>family := Some fam_b, dev := Some dev_b, cmd := Some cmd_b,
        sub := (if cmd_b \<in> {0x10, 0x11, 0x18, 0x1A, 0x1B, 0x61}
                then IntVal (uint (hd data)) else NoneVal),
        validChecksum := Some ((uint (last data) AND 0x7F) = 0x7F
          \<or> (NOT (sum_list (map (\<lambda>b. uint b AND 0x7F) (butlast data)))) AND 0x7F
              = (uint (last data) AND 0x7F))\<rparr>),
      e_data = data\<rparr> # canonize_from (Suc i) fs (Some spec)"
proof -
  let ?payload = "mids @ [fam_b, dev_b, ed_b, cmd_b] @ data"
  have p: "butlast (tl f) = ?payload"
    by (simp add: frame butlast_append)
  have l: "2 \<le> length f" by (simp add: frame)
  have fm: "familyId spec \<noteq> None" by (simp add: fam)
  note pp = proteus_parse_frame [OF mids fam ed refl, of dev_b cmd_b data]
  have pp': "proteus_parse (butlast (tl f)) spec =
     Some \<lparr>p_family = fam_b, p_dev = dev_b, p_cmd = cmd_b,
       p_sub = (if data \<noteq> [] \<and> cmd_b \<in> {0x10, 0x11, 0x18, 0x1A, 0x1B, 0x61}
                then Some (hd data) else None),
       p_validChecksum =
         (\<not> (checksum_type spec = Some ''ones_complement_7bit'' \<and> data \<noteq> []
              \<and> (uint (last data) AND 0x7F) \<noteq> 0x7F
              \<and> checksum7 data \<noteq> (uint (last data) AND 0x7F))),
       p_data = data\<rparr>"
    unfolding p by (rule pp)
  show ?thesis
    using l fm by (simp add: pp' meta_of_parsed_def chk data checksum7_eq del: insert_iff)
qed


text \<open>
  The theorem at the frame \<open>F0 18 0F 00 55 10 | 10 20 30 chk | F7\<close>: the matching
  trailer \<open>chk = 0x1F\<close> is valid, each of its seven one-bit flips is invalid and the
  record is kept, and the sentinel \<open>0x7F\<close> is valid.
\<close>

theorem checksum_validation_witness:
  "map (\<lambda>c. map (\<lambda>e. (e_id e, e_data e, map_option validChecksum (e_meta e)))
          (canonize [[0xF0, 0x18, 0x0F, 0x00, 0x55, 0x10, 0x10, 0x20, 0x30, c, 0xF7]]
             (Some \<lparr>manufacturerId = [0x18], familyId = Some 0x0F, editor = Some 0x55,
                     checksum_type = Some ''ones_complement_7bit''\<rparr>)))
     [0x1F, 0x1E, 0x1D, 0x1B, 0x17, 0x0F, 0x3F, 0x5F, 0x7F]
   = [[(0, [0x10, 0x20, 0x30, 0x1F], Some (Some True))],
      [(0, [0x10, 0x20, 0x30, 0x1E], Some (Some False))],
      [(0, [0x10, 0x20, 0x30, 0x1D], Some (Some False))],
      [(0, [0x10, 0x20, 0x30, 0x1B], Some (Some False))],
      [(0, [0x10, 0x20, 0x30, 0x17], Some (Some False))],
      [(0, [0x10, 0x20, 0x30, 0x0F], Some (Some False))],
      [(0, [0x10, 0x20, 0x30, 0x3F], Some (Some False))],
      [(0, [0x10, 0x20, 0x30, 0x5F], Some (Some False))],
      [(0, [0x10, 0x20, 0x30, 0x7F], Some (Some True))]]"
proof -
  let ?spec = "\<lparr>manufacturerId = [0x18], familyId = Some 0x0F, editor = Some 0x55,
                     checksum_type = Some ''ones_complement_7bit''\<rparr>"
  have inst: "canonize [[0xF0, 0x18, 0x0F, 0x00, 0x55, 0x10, 0x10, 0x20, 0x30, c, 0xF7]]
         (Some ?spec) =
     [\<lparr>e_id = 0, e_type = 0x10, e_flags = 0,
      e_meta = Some (empty_meta\<lparr>family := Some 0x0F, dev := Some 0, cmd := Some 0x10,
        sub := IntVal 0x10,
        validChecksum := Some ((uint c AND 0x7F) = 0x7F \<or> 0x1F = (uint c AND 0x7F))\<rparr>),
      e_data = [0x10, 0x20, 0x30, c]\<rparr>]" for c :: byte
    using checksum_validation [of ?spec "[0x18]" "0x0F" "0x55"
        "[0xF0, 0x18, 0x0F, 0x00, 0x55, 0x10, 0x10, 0x20, 0x30, c, 0xF7]" "0x00" "0x10"
        "[0x10, 0x20, 0x30, c]" 0 "[]"]
    by (simp add: canonize_def)
  show ?thesis by (simp add: inst)
qed

section \<open>The preset assembler\<close>

lemma update_fresh: "k \<notin> fst ` set al \<Longrightarrow> AList.update k v al = al @ [(k, v)]"
  by (induction al) auto

lemma collect_parts_distinct:
  "distinct (map fst parts @ map seq_of (filter is_packet es)) \<Longrightarrow>
   collect_parts es parts = parts @ map (\<lambda>e. (seq_of e, payload_of e)) (filter is_packet es)"
proof (induction es arbitrary: parts)
  case Nil
  then show ?case by simp
next
  case (Cons e es)
  show ?case
  proof (cases "is_packet e")
    case True
    with Cons.prems have fresh: "seq_of e \<notin> fst ` set parts" by auto
    from True Cons.prems
    have "distinct (map fst (parts @ [(seq_of e, payload_of e)]) @ map seq_of (filter is_packet es))"
      by auto
    from Cons.IH [OF this] True fresh show ?thesis
      by (simp add: update_fresh)
  next
    case False
    with Cons show ?thesis by simp
  qed
qed

lemma map_sort_key: "map f (sort_key f xs) = sort (map f xs)"
  by (rule properties_for_sort [symmetric]) simp_all

lemma lookup_parts:
  assumes "distinct (map seq_of pk)" "e \<in> set pk"
  shows "map_of (map (\<lambda>e. (seq_of e, payload_of e)) pk) (seq_of e) = Some (payload_of e)"
proof -
  have "distinct (map fst (map (\<lambda>e. (seq_of e, payload_of e)) pk))"
    using assms(1) by (simp add: comp_def)
  moreover have "(seq_of e, payload_of e) \<in> set (map (\<lambda>e. (seq_of e, payload_of e)) pk)"
    using assms(2) by auto
  ultimately show ?thesis by (rule map_of_is_SomeI)
qed

lemma assembled_bytes_sorted:
  assumes d: "distinct (map seq_of pk)"
  defines "parts \<equiv> map (\<lambda>e. (seq_of e, payload_of e)) pk"
  shows "concat (map (\<lambda>i. case map_of parts i of Some p \<Rightarrow> p | None \<Rightarrow> []) (sort (map fst parts)))
         = concat (map payload_of (sort_key seq_of pk))"
proof -
  have 1: "sort (map fst parts) = map seq_of (sort_key seq_of pk)"
    by (simp add: parts_def comp_def map_sort_key)
  have 2: "map (\<lambda>i. case map_of parts i of Some p \<Rightarrow> p | None \<Rightarrow> []) (map seq_of (sort_key seq_of pk))
      = map (\<lambda>e. case map_of parts (seq_of e) of Some p \<Rightarrow> p | None \<Rightarrow> []) (sort_key seq_of pk)"
    by (simp add: comp_def)
  have 3: "map (\<lambda>e. case map_of parts (seq_of e) of Some p \<Rightarrow> p | None \<Rightarrow> []) (sort_key seq_of pk)
      = map payload_of (sort_key seq_of pk)"
    using lookup_parts [OF d] by (intro map_cong) (auto simp: parts_def)
  show ?thesis by (simp only: 1 2 3)
qed

lemma filter_key_distinct:
  "distinct (map f zs) \<Longrightarrow> k \<in> set zs \<Longrightarrow> filter (\<lambda>x. f k = f x) zs = [k]"
proof (induction zs)
  case Nil
  then show ?case by simp
next
  case (Cons z zs)
  show ?case
  proof (cases "k = z")
    case True
    with Cons.prems have "\<forall>x \<in> set zs. f k \<noteq> f x" by auto
    then have "filter (\<lambda>x. f k = f x) zs = []" by (simp add: filter_empty_conv)
    with True show ?thesis by simp
  next
    case False
    with Cons.prems have "k \<in> set zs" "f k \<noteq> f z" by (auto simp: image_iff)
    with Cons show ?thesis by simp
  qed
qed

lemma sort_key_perm:
  assumes d: "distinct (map f xs)" and m: "mset ys = mset xs"
  shows "sort_key f ys = sort_key f xs"
proof (rule properties_for_sort_key)
  show "mset (sort_key f xs) = mset ys" using m by simp
  show "sorted (map f (sort_key f xs))" by simp
  fix k assume k: "k \<in> set (sort_key f xs)"
  have "mset (map f ys) = mset (map f xs)" using m by simp
  with d have dy: "distinct (map f ys)"
    by (metis mset_eq_imp_distinct_iff)
  have "mset (map f (sort_key f xs)) = mset (map f xs)" by simp
  with d have ds: "distinct (map f (sort_key f xs))"
    by (metis mset_eq_imp_distinct_iff)
  from k m have ky: "k \<in> set ys" by (metis mset_eq_setD set_sort)
  show "filter (\<lambda>x. f k = f x) (sort_key f xs) = filter (\<lambda>x. f k = f x) ys"
    by (simp add: filter_key_distinct [OF ds k] filter_key_distinct [OF dy ky])
qed


lemma next_id_nonneg:
  assumes "es \<noteq> []" "\<forall>e \<in> set es. 0 \<le> e_id e"
  shows "next_id es = Max (e_id ` set es) + 1"
proof -
  have "Max (insert 0 (e_id ` set es)) = max 0 (Max (e_id ` set es))"
    using assms(1) by (intro Max_insert) auto
  moreover have "0 \<le> Max (e_id ` set es)"
  proof -
    from assms(1) obtain x where x: "x \<in> set es" by (cases es) auto
    with assms(2) have "0 \<le> e_id x" by blast
    also from x have "e_id x \<le> Max (e_id ` set es)" by simp
    finally show ?thesis .
  qed
  ultimately show ?thesis by (simp add: next_id_def)
qed

lemma next_id_mset: "mset es' = mset es \<Longrightarrow> next_id es' = next_id es"
  by (simp add: next_id_def) (metis mset_eq_setD)

lemma assemble_preset_distinct:
  assumes d: "distinct (map seq_of (filter is_packet es))"
  shows "assemble_preset es =
     (if concat (map payload_of (sort_key seq_of (filter is_packet es))) = [] then es
      else es @ [\<lparr>e_id = next_id es, e_type = 0x10, e_flags = 0,
                  e_meta = Some (empty_meta\<lparr>sub := IntVal 0xFE, assembled := Some True\<rparr>),
                  e_data = concat (map payload_of (sort_key seq_of (filter is_packet es)))\<rparr>])"
proof -
  let ?pk = "filter is_packet es"
  have c: "collect_parts es [] = map (\<lambda>e. (seq_of e, payload_of e)) ?pk"
    using collect_parts_distinct [of "[]" es] d by simp
  show ?thesis
  proof (cases "?pk = []")
    case True
    then show ?thesis
      unfolding assemble_preset_def Let_def c by simp
  next
    case False
    then show ?thesis
      unfolding assemble_preset_def Let_def c assembled_bytes_sorted [OF d] by simp
  qed
qed

text \<open>
  Claim C3 (assembler postcondition and order-independence), as amended. For every
  record collection whose continuation packets (type 0x10, subtype 0x02 or 0x04, at least
  three data bytes) have pairwise distinct sequence numbers
  \<open>seq = data[0] | (data[1] << 7)\<close>: let \<open>blob\<close> be the concatenation of the packets'
  payloads \<open>data[2:-1]\<close> in ascending order of \<open>seq\<close>. If \<open>blob\<close> is non-empty,
  \<open>assemble_preset\<close> appends exactly one record, of type 0x10, subtype 0xFE, flag
  \<open>assembled = True\<close>, id \<open>max(ids + [0]) + 1\<close> (which is \<open>max(ids) + 1\<close> for the
  non-negative ids of a collection) and data \<open>blob\<close>; if \<open>blob\<close> is empty, the
  collection is returned unchanged. The appended record is the same for every
  permutation of the collection.
\<close>

theorem assemble_preset_spec:
  assumes "distinct (map seq_of (filter is_packet es))"
  shows "assemble_preset es =
     (if concat (map payload_of (sort_key seq_of (filter is_packet es))) = [] then es
      else es @ [\<lparr>e_id = next_id es, e_type = 0x10, e_flags = 0,
                  e_meta = Some (empty_meta\<lparr>sub := IntVal 0xFE, assembled := Some True\<rparr>),
                  e_data = concat (map payload_of (sort_key seq_of (filter is_packet es)))\<rparr>])
    \<and> (es \<noteq> [] \<and> (\<forall>e \<in> set es. 0 \<le> e_id e) \<longrightarrow> next_id es = Max (e_id ` set es) + 1)
    \<and> (\<forall>es'. mset es' = mset es \<longrightarrow>
           sort_key seq_of (filter is_packet es') = sort_key seq_of (filter is_packet es)
           \<and> drop (length es') (assemble_preset es') = drop (length es) (assemble_preset es))"
proof (intro conjI)
  show "assemble_preset es =
     (if concat (map payload_of (sort_key seq_of (filter is_packet es))) = [] then es
      else es @ [\<lparr>e_id = next_id es, e_type = 0x10, e_flags = 0,
                  e_meta = Some (empty_meta\<lparr>sub := IntVal 0xFE, assembled := Some True\<rparr>),
                  e_data = concat (map payload_of (sort_key seq_of (filter is_packet es)))\<rparr>])"
    using assms by (rule assemble_preset_distinct)
  show "es \<noteq> [] \<and> (\<forall>e \<in> set es. 0 \<le> e_id e) \<longrightarrow> next_id es = Max (e_id ` set es) + 1"
    using next_id_nonneg by blast
  show "\<forall>es'. mset es' = mset es \<longrightarrow>
           sort_key seq_of (filter is_packet es') = sort_key seq_of (filter is_packet es)
           \<and> drop (length es') (assemble_preset es') = drop (length es) (assemble_preset es)"
  proof (intro allI impI)
    fix es' assume m: "mset es' = mset es"
    then have mf: "mset (filter is_packet es') = mset (filter is_packet es)"
      by simp
    with assms have d': "distinct (map seq_of (filter is_packet es'))"
      by (metis mset_eq_imp_distinct_iff mset_map)
    have s: "sort_key seq_of (filter is_packet es') = sort_key seq_of (filter is_packet es)"
      using assms mf by (rule sort_key_perm)
    show "sort_key seq_of (filter is_packet es') = sort_key seq_of (filter is_packet es)
           \<and> drop (length es') (assemble_preset es') = drop (length es) (assemble_preset es)"
      by (simp add: assemble_preset_distinct [OF assms] assemble_preset_distinct [OF d'] s
            next_id_mset [OF m])
  qed
qed

lemma packet_facts:
  "is_packet \<lparr>e_id = i, e_type = 0x10, e_flags = 0,
      e_meta = Some (empty_meta\<lparr>sub := IntVal 2\<rparr>), e_data = a # b # c # ds\<rparr>"
  "is_packet \<lparr>e_id = i, e_type = 0x10, e_flags = 0,
      e_meta = Some (empty_meta\<lparr>sub := IntVal 4\<rparr>), e_data = a # b # c # ds\<rparr>"
  "seq_of \<lparr>e_id = i, e_type = t, e_flags = fl, e_meta = m, e_data = a # b # ds\<rparr>
     = uint a OR push_bit 7 (uint b)"
  "payload_of \<lparr>e_id = i, e_type = t, e_flags = fl, e_meta = m, e_data = a # b # ds\<rparr>
     = butlast ds"
  by (simp_all add: is_packet_def sub_or_0_def get_sub_def seq_of_def payload_of_def)

text \<open>
  The theorem at packets with sequence numbers 2, 0, 1 submitted in that order: the
  appended record has id 3 and carries the payloads in the order 0, 1, 2, and the
  collection submitted in the order 0, 1, 2 gets the same record.
\<close>

theorem assemble_preset_spec_witness:
  "distinct (map seq_of (filter is_packet
     [\<lparr>e_id = 0, e_type = 0x10, e_flags = 0, e_meta = Some (empty_meta\<lparr>sub := IntVal 2\<rparr>),
        e_data = [2, 0, 0xC1, 0xC2, 0x00]\<rparr>,
      \<lparr>e_id = 1, e_type = 0x10, e_flags = 0, e_meta = Some (empty_meta\<lparr>sub := IntVal 4\<rparr>),
        e_data = [0, 0, 0xA1, 0x00]\<rparr>,
      \<lparr>e_id = 2, e_type = 0x10, e_flags = 0, e_meta = Some (empty_meta\<lparr>sub := IntVal 2\<rparr>),
        e_data = [1, 0, 0xB1, 0xB2, 0xB3, 0x00]\<rparr>]))
   \<and> assemble_preset
     [\<lparr>e_id = 0, e_type = 0x10, e_flags = 0, e_meta = Some (empty_meta\<lparr>sub := IntVal 2\<rparr>),
        e_data = [2, 0, 0xC1, 0xC2, 0x00]\<rparr>,
      \<lparr>e_id = 1, e_type = 0x10, e_flags = 0, e_meta = Some (empty_meta\<lparr>sub := IntVal 4\<rparr>),
        e_data = [0, 0, 0xA1, 0x00]\<rparr>,
      \<lparr>e_id = 2, e_type = 0x10, e_flags = 0, e_meta = Some (empty_meta\<lparr>sub := IntVal 2\<rparr>),
        e_data = [1, 0, 0xB1, 0xB2, 0xB3, 0x00]\<rparr>]
   = [\<lparr>e_id = 0, e_type = 0x10, e_flags = 0, e_meta = Some (empty_meta\<lparr>sub := IntVal 2\<rparr>),
        e_data = [2, 0, 0xC1, 0xC2, 0x00]\<rparr>,
      \<lparr>e_id = 1, e_type = 0x10, e_flags = 0, e_meta = Some (empty_meta\<lparr>sub := IntVal 4\<rparr>),
        e_data = [0, 0, 0xA1, 0x00]\<rparr>,
      \<lparr>e_id = 2, e_type = 0x10, e_flags = 0, e_meta = Some (empty_meta\<lparr>sub := IntVal 2\<rparr>),
        e_data = [1, 0, 0xB1, 0xB2, 0xB3, 0x00]\<rparr>,
      \<lparr>e_id = 3, e_type = 0x10, e_flags = 0,
        e_meta = Some (empty_meta\<lparr>sub := IntVal 0xFE, assembled := Some True\<rparr>),
        e_data = [0xA1, 0xB1, 0xB2, 0xB3, 0xC1, 0xC2]\<rparr>]
   \<and> drop 3 (assemble_preset
     [\<lparr>e_id = 1, e_type = 0x10, e_flags = 0, e_meta = Some (empty_meta\<lparr>sub := IntVal 4\<rparr>),
        e_data = [0, 0, 0xA1, 0x00]\<rparr>,
      \<lparr>e_id = 2, e_type = 0x10, e_flags = 0, e_meta = Some (empty_meta\<lparr>sub := IntVal 2\<rparr>),
        e_data = [1, 0, 0xB1, 0xB2, 0xB3, 0x00]\<rparr>,
      \<lparr>e_id = 0, e_type = 0x10, e_flags = 0, e_meta = Some (empty_meta\<lparr>sub := IntVal 2\<rparr>),
        e_data = [2, 0, 0xC1, 0xC2, 0x00]\<rparr>])
   = [\<lparr>e_id = 3, e_type = 0x10, e_flags = 0,
        e_meta = Some (empty_meta\<lparr>sub := IntVal 0xFE, assembled := Some True\<rparr>),
        e_data = [0xA1, 0xB1, 0xB2, 0xB3, 0xC1, 0xC2]\<rparr>]"
proof -
  let ?p2 = "\<lparr>e_id = 0, e_type = 0x10, e_flags = 0,
      e_meta = Some (empty_meta\<lparr>sub := IntVal 2\<rparr>), e_data = [2, 0, 0xC1, 0xC2, 0x00]\<rparr>"
  let ?p0 = "\<lparr>e_id = 1, e_type = 0x10, e_flags = 0,
      e_meta = Some (empty_meta\<lparr>sub := IntVal 4\<rparr>), e_data = [0, 0, 0xA1, 0x00]\<rparr>"
  let ?p1 = "\<lparr>e_id = 2, e_type = 0x10, e_flags = 0,
      e_meta = Some (empty_meta\<lparr>sub := IntVal 2\<rparr>), e_data = [1, 0, 0xB1, 0xB2, 0xB3, 0x00]\<rparr>"
  let ?es = "[?p2, ?p0, ?p1]"
  have f: "filter is_packet ?es = ?es" by (simp add: packet_facts)
  have d: "distinct (map seq_of (filter is_packet ?es))"
    unfolding f by (simp add: packet_facts)
  have s: "sort_key seq_of (filter is_packet ?es) = [?p0, ?p1, ?p2]"
    unfolding f by (simp add: packet_facts)
  have n: "next_id ?es = 3" by (simp add: next_id_def)
  have m: "mset [?p0, ?p1, ?p2] = mset ?es" by simp
  note spec = assemble_preset_spec [OF d]
  from spec have a: "assemble_preset ?es = ?es @ [\<lparr>e_id = 3, e_type = 0x10, e_flags = 0,
        e_meta = Some (empty_meta\<lparr>sub := IntVal 0xFE, assembled := Some True\<rparr>),
        e_data = [0xA1, 0xB1, 0xB2, 0xB3, 0xC1, 0xC2]\<rparr>]"
    unfolding s n by (simp add: packet_facts)
  from spec m have "drop (length [?p0, ?p1, ?p2]) (assemble_preset [?p0, ?p1, ?p2])
      = drop (length ?es) (assemble_preset ?es)"
    by blast
  then have p: "drop 3 (assemble_preset [?p0, ?p1, ?p2]) = [\<lparr>e_id = 3, e_type = 0x10, e_flags = 0,
        e_meta = Some (empty_meta\<lparr>sub := IntVal 0xFE, assembled := Some True\<rparr>),
        e_data = [0xA1, 0xB1, 0xB2, 0xB3, 0xC1, 0xC2]\<rparr>]"
    unfolding a by (simp add: numeral_3_eq_3)
  from a have a': "assemble_preset ?es = [?p2, ?p0, ?p1, \<lparr>e_id = 3, e_type = 0x10, e_flags = 0,
        e_meta = Some (empty_meta\<lparr>sub := IntVal 0xFE, assembled := Some True\<rparr>),
        e_data = [0xA1, 0xB1, 0xB2, 0xB3, 0xC1, 0xC2]\<rparr>]"
    by simp
  from d a' p show ?thesis by (intro conjI)
qed

text \<open>
  The claim as stated fails where every collected payload is empty: a single packet of
  three data bytes is collected (its payload is the empty byte string, stored under
  sequence number 0), and no record is appended.
\<close>

theorem assemble_preset_counterexample:
  "is_packet \<lparr>e_id = 0, e_type = 0x10, e_flags = 0,
      e_meta = Some (empty_meta\<lparr>sub := IntVal 2\<rparr>), e_data = [0, 0, 0x7F]\<rparr>
   \<and> collect_parts [\<lparr>e_id = 0, e_type = 0x10, e_flags = 0,
      e_meta = Some (empty_meta\<lparr>sub := IntVal 2\<rparr>), e_data = [0, 0, 0x7F]\<rparr>] [] = [(0, [])]
   \<and> assemble_preset [\<lparr>e_id = 0, e_type = 0x10, e_flags = 0,
      e_meta = Some (empty_meta\<lparr>sub := IntVal 2\<rparr>), e_data = [0, 0, 0x7F]\<rparr>]
     = [\<lparr>e_id = 0, e_type = 0x10, e_flags = 0,
      e_meta = Some (empty_meta\<lparr>sub := IntVal 2\<rparr>), e_data = [0, 0, 0x7F]\<rparr>]"
  by (simp add: assemble_preset_def packet_facts)

section \<open>The header-driven segmenter\<close>

lemma parse_preset_header_blob_Some:
  "parse_preset_header_blob blob = Some hdr \<Longrightarrow>
     17 \<le> length blob \<and> LayFilt (h_counts hdr) = blob ! 13 \<and> LayEnv (h_counts hdr) = blob ! 15"
  by (auto simp: parse_preset_header_blob_def split: if_splits)

lemma parse_preset_header_blob_None:
  "parse_preset_header_blob blob = None \<longleftrightarrow> length blob < 17"
  by (auto simp: parse_preset_header_blob_def)

lemma segment_loop_enumerate:
  "segment_loop js fb (base + int n) es =
     es @ map (\<lambda>(j, i). \<lparr>e_id = base + int j, e_type = 0x10, e_flags = 0,
                 e_meta = Some (empty_meta\<lparr>sub := IntVal 0x22, heuristic := Some True,
                                            idx := Some i\<rparr>),
                 e_data = slice fb (i * 14) ((i + 1) * 14)\<rparr>) (List.enumerate n js)"
proof (induction js arbitrary: n es)
  case Nil
  then show ?case by simp
next
  case (Cons i js)
  let ?r = "\<lparr>e_id = base + int n, e_type = 0x10, e_flags = 0,
                 e_meta = Some (empty_meta\<lparr>sub := IntVal 0x22, heuristic := Some True,
                                            idx := Some i\<rparr>),
                 e_data = slice fb (i * 14) ((i + 1) * 14)\<rparr>"
  have e: "base + int n + 1 = base + int (Suc n)" by simp
  have "segment_loop (i # js) fb (base + int n) es
      = segment_loop js fb (base + int (Suc n)) (es @ [?r])"
    unfolding segment_loop.simps e ..
  also note Cons.IH [of "Suc n" "es @ [?r]"]
  finally show ?case by simp
qed

lemma segment_loop_upt:
  "segment_loop [0..<n] fb base es =
     es @ map (\<lambda>i. \<lparr>e_id = base + int i, e_type = 0x10, e_flags = 0,
                 e_meta = Some (empty_meta\<lparr>sub := IntVal 0x22, heuristic := Some True,
                                            idx := Some i\<rparr>),
                 e_data = slice fb (i * 14) ((i + 1) * 14)\<rparr>) [0..<n]"
proof -
  have "List.enumerate 0 [0..<n] = map (\<lambda>i. (i, i)) [0..<n]"
    by (intro nth_equalityI) (auto simp: nth_enumerate_eq)
  then show ?thesis
    using segment_loop_enumerate [of "[0..<n]" fb base 0 es] by (simp add: comp_def)
qed

lemma slice_filt_blob:
  assumes "i < lf" "lf * 14 \<le> length tail"
  shows "slice (take (lf * 14) tail) (i * 14) ((i + 1) * 14) = slice tail (i * 14) ((i + 1) * 14)"
    and "length (slice tail (i * 14) ((i + 1) * 14)) = 14"
proof -
  from assms(1) have b: "(i + 1) * 14 \<le> lf * 14" by simp
  then have "take 14 (drop (i * 14) (take (lf * 14) tail)) = take 14 (drop (i * 14) tail)"
    by (simp add: drop_take min_def)
  then show "slice (take (lf * 14) tail) (i * 14) ((i + 1) * 14) = slice tail (i * 14) ((i + 1) * 14)"
    by (simp add: slice_def)
  from b assms(2) show "length (slice tail (i * 14) ((i + 1) * 14)) = 14"
    by (simp add: slice_def)
qed

lemma segment_assembled_carve:
  assumes h: "find is_header es = Some header"
    and a: "find is_assembled es = Some asm"
    and p: "parse_preset_header_blob (e_data header) = Some hdr"
    and need: "need = unat (LayFilt (h_counts hdr)) * 14 + unat (LayEnv (h_counts hdr)) * 92"
    and rng: "0 < need" "need \<le> length (e_data asm)"
    and tail: "tail = drop (length (e_data asm) - need) (e_data asm)"
  shows "segment_assembled es =
     es @ map (\<lambda>i. \<lparr>e_id = next_id es + int i, e_type = 0x10, e_flags = 0,
                 e_meta = Some (empty_meta\<lparr>sub := IntVal 0x22, heuristic := Some True,
                                            idx := Some i\<rparr>),
                 e_data = slice tail (i * 14) ((i + 1) * 14)\<rparr>)
            [0..<unat (LayFilt (h_counts hdr))]"
proof -
  let ?lf = "unat (LayFilt (h_counts hdr))"
  have lt: "length tail = need" using rng by (simp add: tail)
  then have le: "?lf * 14 \<le> length tail" by (simp add: need)
  have s: "segment_assembled es =
      segment_loop [0..<?lf] (take (?lf * 14) tail) (next_id es) es"
    using rng by (simp add: segment_assembled_def h a p Let_def need [symmetric] tail)
  have "slice (take (?lf * 14) tail) (i * 14) ((i + 1) * 14) = slice tail (i * 14) ((i + 1) * 14)"
    if "i \<in> set [0..<?lf]" for i
    using that by (intro slice_filt_blob(1) [OF _ le]) simp
  then show ?thesis
    unfolding s segment_loop_upt by (simp only: cong: map_cong)
qed


lemma find_examples:
  "is_header \<lparr>e_id = i, e_type = 0x10, e_flags = fl, e_meta = Some (empty_meta\<lparr>sub := IntVal 0x01\<rparr>), e_data = d\<rparr>"
  "\<not> is_assembled \<lparr>e_id = i, e_type = 0x10, e_flags = fl, e_meta = Some (empty_meta\<lparr>sub := IntVal 0x01\<rparr>), e_data = d\<rparr>"
  "is_assembled \<lparr>e_id = i, e_type = 0x10, e_flags = fl, e_meta = Some (empty_meta\<lparr>sub := IntVal 0xFE, assembled := Some True\<rparr>), e_data = d\<rparr>"
  "\<not> is_header \<lparr>e_id = i, e_type = 0x10, e_flags = fl, e_meta = Some (empty_meta\<lparr>sub := IntVal 0xFE, assembled := Some True\<rparr>), e_data = d\<rparr>"
  by (simp_all add: is_header_def is_assembled_def get_sub_def)

text \<open>
  Claim C4 (segmenter exactness), as amended. If the first header record (type 0x10,
  subtype 0x01) of the collection has data that decodes to a preset header (at least
  17 bytes; the layer filter count is byte 13 and the layer envelope count byte 15),
  \<open>asm\<close> is the first assembled record (type 0x10, subtype 0xFE) of the collection, and
  \<open>need = layerFilterCount * 14 + layerEnvelopeCount * 92\<close> satisfies
  \<open>0 < need \<le> len(data of asm)\<close>, then \<open>segment_assembled\<close> appends exactly
  \<open>layerFilterCount\<close> records of type 0x10, subtype 0x22, with the heuristic flag and
  index \<open>i\<close>, ids continuing from \<open>max(ids + [0]) + 1\<close>; the data of the \<open>i\<close>-th
  is the 14 bytes \<open>tail[i*14 : (i+1)*14]\<close> of the last \<open>need\<close> bytes \<open>tail\<close> of the
  data of \<open>asm\<close>.
\<close>

theorem segment_assembled_exact:
  assumes "find is_header es = Some header"
    and "find is_assembled es = Some asm"
    and "parse_preset_header_blob (e_data header) = Some hdr"
    and "need = unat (LayFilt (h_counts hdr)) * 14 + unat (LayEnv (h_counts hdr)) * 92"
    and "0 < need" and "need \<le> length (e_data asm)"
  shows "17 \<le> length (e_data header)
    \<and> LayFilt (h_counts hdr) = e_data header ! 13
    \<and> LayEnv (h_counts hdr) = e_data header ! 15
    \<and> segment_assembled es =
        es @ map (\<lambda>i. \<lparr>e_id = next_id es + int i, e_type = 0x10, e_flags = 0,
                    e_meta = Some (empty_meta\<lparr>sub := IntVal 0x22, heuristic := Some True,
                                               idx := Some i\<rparr>),
                    e_data = slice (drop (length (e_data asm) - need) (e_data asm))
                               (i * 14) ((i + 1) * 14)\<rparr>)
               [0..<unat (LayFilt (h_counts hdr))]
    \<and> (\<forall>i < unat (LayFilt (h_counts hdr)).
          length (slice (drop (length (e_data asm) - need) (e_data asm))
                    (i * 14) ((i + 1) * 14)) = 14)"
proof -
  let ?tail = "drop (length (e_data asm) - need) (e_data asm)"
  have le: "unat (LayFilt (h_counts hdr)) * 14 \<le> length ?tail"
    using assms(4,6) by simp
  have "\<forall>i < unat (LayFilt (h_counts hdr)).
          length (slice ?tail (i * 14) ((i + 1) * 14)) = 14"
    using slice_filt_blob(2) [OF _ le] by blast
  moreover note parse_preset_header_blob_Some [OF assms(3)]
    segment_assembled_carve [OF assms refl]
  ultimately show ?thesis by blast
qed

text \<open>
  The theorem at a header with layer filter count 3 and layer envelope count 0 and an
  assembled blob of 42 bytes: three records of 14 bytes, the blob's consecutive slices.
\<close>

theorem segment_assembled_exact_witness:
  "segment_assembled
     [\<lparr>e_id = 0, e_type = 0x10, e_flags = 0, e_meta = Some (empty_meta\<lparr>sub := IntVal 0x01\<rparr>), e_data = [1, 0, 0, 0, 0, 0, 0, 0, 0, 0, 0, 0, 0, 3, 0, 0, 0]\<rparr>,
      \<lparr>e_id = 1, e_type = 0x10, e_flags = 0, e_meta = Some (empty_meta\<lparr>sub := IntVal 0xFE, assembled := Some True\<rparr>), e_data = [11, 48, 85, 122, 159, 196, 233, 19, 56, 93, 130, 167, 204, 241, 27, 64, 101, 138, 175, 212, 249, 35, 72, 109, 146, 183, 220, 6, 43, 80, 117, 154, 191, 228, 14, 51, 88, 125, 162, 199, 236, 22]\<rparr>]
   = [\<lparr>e_id = 0, e_type = 0x10, e_flags = 0, e_meta = Some (empty_meta\<lparr>sub := IntVal 0x01\<rparr>), e_data = [1, 0, 0, 0, 0, 0, 0, 0, 0, 0, 0, 0, 0, 3, 0, 0, 0]\<rparr>,
      \<lparr>e_id = 1, e_type = 0x10, e_flags = 0, e_meta = Some (empty_meta\<lparr>sub := IntVal 0xFE, assembled := Some True\<rparr>), e_data = [11, 48, 85, 122, 159, 196, 233, 19, 56, 93, 130, 167, 204, 241, 27, 64, 101, 138, 175, 212, 249, 35, 72, 109, 146, 183, 220, 6, 43, 80, 117, 154, 191, 228, 14, 51, 88, 125, 162, 199, 236, 22]\<rparr>,
      \<lparr>e_id = 2, e_type = 0x10, e_flags = 0, e_meta = Some (empty_meta\<lparr>sub := IntVal 0x22, heuristic := Some True, idx := Some 0\<rparr>), e_data = [11, 48, 85, 122, 159, 196, 233, 19, 56, 93, 130, 167, 204, 241]\<rparr>,
      \<lparr>e_id = 3, e_type = 0x10, e_flags = 0, e_meta = Some (empty_meta\<lparr>sub := IntVal 0x22, heuristic := Some True, idx := Some 1\<rparr>), e_data = [27, 64, 101, 138, 175, 212, 249, 35, 72, 109, 146, 183, 220, 6]\<rparr>,
      \<lparr>e_id = 4, e_type = 0x10, e_flags = 0, e_meta = Some (empty_meta\<lparr>sub := IntVal 0x22, heuristic := Some True, idx := Some 2\<rparr>), e_data = [43, 80, 117, 154, 191, 228, 14, 51, 88, 125, 162, 199, 236, 22]\<rparr>]"
proof -
  let ?h = "\<lparr>e_id = 0, e_type = 0x10, e_flags = 0, e_meta = Some (empty_meta\<lparr>sub := IntVal 0x01\<rparr>), e_data = [1, 0, 0, 0, 0, 0, 0, 0, 0, 0, 0, 0, 0, 3, 0, 0, 0]\<rparr>"
  let ?a = "\<lparr>e_id = 1, e_type = 0x10, e_flags = 0, e_meta = Some (empty_meta\<lparr>sub := IntVal 0xFE, assembled := Some True\<rparr>), e_data = [11, 48, 85, 122, 159, 196, 233, 19, 56, 93, 130, 167, 204, 241, 27, 64, 101, 138, 175, 212, 249, 35, 72, 109, 146, 183, 220, 6, 43, 80, 117, 154, 191, 228, 14, 51, 88, 125, 162, 199, 236, 22]\<rparr>"
  have f: "find is_header [?h, ?a] = Some ?h" "find is_assembled [?h, ?a] = Some ?a"
    by (simp_all add: find_examples)
  have p: "parse_preset_header_blob (e_data ?h) = Some \<lparr>h_sub = 1, h_preset = 0, h_data_bytes = 0,
      h_counts = \<lparr>PCGen = 0, Reserved = 0, PCEfx = 0, PCLinks = 0, Layers = 0, LayGen = 0,
        LayFilt = 3, LayLFO = 0, LayEnv = 0, LayCords = 0\<rparr>\<rparr>"
    by (simp add: parse_preset_header_blob_def)
  have n: "next_id [?h, ?a] = 2" by (simp add: next_id_def)
  have u: "[0..<3] = [0, 1, 2]" by (simp add: upt_rec)
  from segment_assembled_exact [OF f p, of 42]
  show ?thesis by (simp add: n u slice_def)
qed


text \<open>
  The claim as stated fails on a collection that contains a decodable header record
  which is not the first one: a header of three bytes, then a header of 17 bytes with
  layer filter count 1 and layer envelope count 0, then an assembled record of 14
  bytes. A header that decodes and an assembled record are present and
  \<open>need = 14\<close> is the length of the assembled data, yet the first header is the one
  used, it does not decode, and nothing is appended.
\<close>

theorem segment_assembled_exact_counterexample:
  "is_header \<lparr>e_id = 1, e_type = 0x10, e_flags = 0, e_meta = Some (empty_meta\<lparr>sub := IntVal 0x01\<rparr>), e_data = [1, 0, 0, 0, 0, 0, 0, 0, 0, 0, 0, 0, 0, 1, 0, 0, 0]\<rparr>
   \<and> parse_preset_header_blob (e_data \<lparr>e_id = 1, e_type = 0x10, e_flags = 0, e_meta = Some (empty_meta\<lparr>sub := IntVal 0x01\<rparr>), e_data = [1, 0, 0, 0, 0, 0, 0, 0, 0, 0, 0, 0, 0, 1, 0, 0, 0]\<rparr>)
       = Some \<lparr>h_sub = 1, h_preset = 0, h_data_bytes = 0,
           h_counts = \<lparr>PCGen = 0, Reserved = 0, PCEfx = 0, PCLinks = 0, Layers = 0,
             LayGen = 0, LayFilt = 1, LayLFO = 0, LayEnv = 0, LayCords = 0\<rparr>\<rparr>
   \<and> is_assembled \<lparr>e_id = 2, e_type = 0x10, e_flags = 0, e_meta = Some (empty_meta\<lparr>sub := IntVal 0xFE, assembled := Some True\<rparr>), e_data = [11, 48, 85, 122, 159, 196, 233, 19, 56, 93, 130, 167, 204, 241]\<rparr>
   \<and> length (e_data \<lparr>e_id = 2, e_type = 0x10, e_flags = 0, e_meta = Some (empty_meta\<lparr>sub := IntVal 0xFE, assembled := Some True\<rparr>), e_data = [11, 48, 85, 122, 159, 196, 233, 19, 56, 93, 130, 167, 204, 241]\<rparr>) = 14
   \<and> segment_assembled
     [\<lparr>e_id = 0, e_type = 0x10, e_flags = 0, e_meta = Some (empty_meta\<lparr>sub := IntVal 0x01\<rparr>), e_data = [1, 0, 0]\<rparr>,
      \<lparr>e_id = 1, e_type = 0x10, e_flags = 0, e_meta = Some (empty_meta\<lparr>sub := IntVal 0x01\<rparr>), e_data = [1, 0, 0, 0, 0, 0, 0, 0, 0, 0, 0, 0, 0, 1, 0, 0, 0]\<rparr>,
      \<lparr>e_id = 2, e_type = 0x10, e_flags = 0, e_meta = Some (empty_meta\<lparr>sub := IntVal 0xFE, assembled := Some True\<rparr>), e_data = [11, 48, 85, 122, 159, 196, 233, 19, 56, 93, 130, 167, 204, 241]\<rparr>]
   = [\<lparr>e_id = 0, e_type = 0x10, e_flags = 0, e_meta = Some (empty_meta\<lparr>sub := IntVal 0x01\<rparr>), e_data = [1, 0, 0]\<rparr>,
      \<lparr>e_id = 1, e_type = 0x10, e_flags = 0, e_meta = Some (empty_meta\<lparr>sub := IntVal 0x01\<rparr>), e_data = [1, 0, 0, 0, 0, 0, 0, 0, 0, 0, 0, 0, 0, 1, 0, 0, 0]\<rparr>,
      \<lparr>e_id = 2, e_type = 0x10, e_flags = 0, e_meta = Some (empty_meta\<lparr>sub := IntVal 0xFE, assembled := Some True\<rparr>), e_data = [11, 48, 85, 122, 159, 196, 233, 19, 56, 93, 130, 167, 204, 241]\<rparr>]"
proof -
  let ?h1 = "\<lparr>e_id = 0, e_type = 0x10, e_flags = 0, e_meta = Some (empty_meta\<lparr>sub := IntVal 0x01\<rparr>), e_data = [1, 0, 0]\<rparr>"
  let ?h2 = "\<lparr>e_id = 1, e_type = 0x10, e_flags = 0, e_meta = Some (empty_meta\<lparr>sub := IntVal 0x01\<rparr>), e_data = [1, 0, 0, 0, 0, 0, 0, 0, 0, 0, 0, 0, 0, 1, 0, 0, 0]\<rparr>"
  let ?a = "\<lparr>e_id = 2, e_type = 0x10, e_flags = 0, e_meta = Some (empty_meta\<lparr>sub := IntVal 0xFE, assembled := Some True\<rparr>), e_data = [11, 48, 85, 122, 159, 196, 233, 19, 56, 93, 130, 167, 204, 241]\<rparr>"
  have f: "find is_header [?h1, ?h2, ?a] = Some ?h1" "find is_assembled [?h1, ?h2, ?a] = Some ?a"
    by (simp_all add: find_examples)
  have p1: "parse_preset_header_blob [1, 0, 0] = None"
    by (simp add: parse_preset_header_blob_def)
  have s: "segment_assembled [?h1, ?h2, ?a] = [?h1, ?h2, ?a]"
    unfolding segment_assembled_def f by (simp add: p1 Let_def)
  have p2: "parse_preset_header_blob (e_data ?h2)
       = Some \<lparr>h_sub = 1, h_preset = 0, h_data_bytes = 0,
           h_counts = \<lparr>PCGen = 0, Reserved = 0, PCEfx = 0, PCLinks = 0, Layers = 0,
             LayGen = 0, LayFilt = 1, LayLFO = 0, LayEnv = 0, LayCords = 0\<rparr>\<rparr>"
    by (simp add: parse_preset_header_blob_def)
  have l: "length (e_data ?a) = 14" by simp
  from find_examples(1) [of 1 0 "e_data ?h2"] have i2: "is_header ?h2" by simp
  from find_examples(3) [of 2 0 "e_data ?a"] have i3: "is_assembled ?a" by simp
  from i2 p2 i3 l s show ?thesis by (intro conjI)
qed

text \<open>
  Claim C8 (segmenter no-op conditions), as amended. \<open>segment_assembled\<close> needs at
  least one header record and at least one assembled record, and uses the first of
  each. It returns the collection unchanged, with no error, when there is no header
  record, when there is no assembled record, when the first header's data is shorter
  than 17 bytes, when \<open>need = layerFilterCount * 14 + layerEnvelopeCount * 92\<close> is 0, and
  when \<open>need\<close> exceeds the length of the first assembled record's data.
\<close>

theorem segment_assembled_noop:
  assumes "(\<forall>e \<in> set es. \<not> is_header e) \<or> (\<forall>e \<in> set es. \<not> is_assembled e) \<or>
     (\<exists>header asm. find is_header es = Some header \<and> find is_assembled es = Some asm \<and>
        (length (e_data header) < 17
         \<or> unat (e_data header ! 13) * 14 + unat (e_data header ! 15) * 92 = 0
         \<or> unat (e_data header ! 13) * 14 + unat (e_data header ! 15) * 92
              > length (e_data asm)))"
  shows "segment_assembled es = es"
proof -
  consider (nh) "\<forall>e \<in> set es. \<not> is_header e" | (na) "\<forall>e \<in> set es. \<not> is_assembled e"
    | (both) header asm where "find is_header es = Some header" "find is_assembled es = Some asm"
        "length (e_data header) < 17
         \<or> unat (e_data header ! 13) * 14 + unat (e_data header ! 15) * 92 = 0
         \<or> unat (e_data header ! 13) * 14 + unat (e_data header ! 15) * 92
              > length (e_data asm)"
    using assms by blast
  then show ?thesis
  proof cases
    case nh
    then have "find is_header es = None" by (simp add: find_None_iff)
    then show ?thesis by (simp add: segment_assembled_def)
  next
    case na
    then have "find is_assembled es = None" by (simp add: find_None_iff)
    then show ?thesis by (simp add: segment_assembled_def split: option.splits)
  next
    case both
    show ?thesis
    proof (cases "parse_preset_header_blob (e_data header)")
      case None
      with both show ?thesis by (simp add: segment_assembled_def)
    next
      case (Some hdr)
      note hs = parse_preset_header_blob_Some [OF Some]
      with both(3) have "unat (LayFilt (h_counts hdr)) * 14 + unat (LayEnv (h_counts hdr)) * 92 = 0
         \<or> unat (LayFilt (h_counts hdr)) * 14 + unat (LayEnv (h_counts hdr)) * 92
              > length (e_data asm)"
        by auto
      then show ?thesis
        unfolding segment_assembled_def both(1,2) Some Let_def option.case
        by (auto simp del: mult_eq_0_iff add_is_0)
    qed
  qed
qed

text \<open>
  The theorem at five collections: no header record; no assembled record; a header of
  three bytes; a header with both counts 0; a header that needs 106 bytes of a 14-byte
  blob.
\<close>

theorem segment_assembled_noop_witness:
  "segment_assembled
     [\<lparr>e_id = 0, e_type = 0x10, e_flags = 0, e_meta = Some (empty_meta\<lparr>sub := IntVal 0xFE, assembled := Some True\<rparr>), e_data = [11, 48, 85, 122, 159, 196, 233, 19, 56, 93, 130, 167, 204, 241]\<rparr>]
   = [\<lparr>e_id = 0, e_type = 0x10, e_flags = 0, e_meta = Some (empty_meta\<lparr>sub := IntVal 0xFE, assembled := Some True\<rparr>), e_data = [11, 48, 85, 122, 159, 196, 233, 19, 56, 93, 130, 167, 204, 241]\<rparr>] \<and>
   segment_assembled
     [\<lparr>e_id = 0, e_type = 0x10, e_flags = 0, e_meta = Some (empty_meta\<lparr>sub := IntVal 0x01\<rparr>), e_data = [1, 0, 0, 0, 0, 0, 0, 0, 0, 0, 0, 0, 0, 1, 0, 0, 0]\<rparr>]
   = [\<lparr>e_id = 0, e_type = 0x10, e_flags = 0, e_meta = Some (empty_meta\<lparr>sub := IntVal 0x01\<rparr>), e_data = [1, 0, 0, 0, 0, 0, 0, 0, 0, 0, 0, 0, 0, 1, 0, 0, 0]\<rparr>] \<and>
   segment_assembled
     [\<lparr>e_id = 0, e_type = 0x10, e_flags = 0, e_meta = Some (empty_meta\<lparr>sub := IntVal 0x01\<rparr>), e_data = [1, 0, 0]\<rparr>,
      \<lparr>e_id = 1, e_type = 0x10, e_flags = 0, e_meta = Some (empty_meta\<lparr>sub := IntVal 0xFE, assembled := Some True\<rparr>), e_data = [11, 48, 85, 122, 159, 196, 233, 19, 56, 93, 130, 167, 204, 241]\<rparr>]
   = [\<lparr>e_id = 0, e_type = 0x10, e_flags = 0, e_meta = Some (empty_meta\<lparr>sub := IntVal 0x01\<rparr>), e_data = [1, 0, 0]\<rparr>,
      \<lparr>e_id = 1, e_type = 0x10, e_flags = 0, e_meta = Some (empty_meta\<lparr>sub := IntVal 0xFE, assembled := Some True\<rparr>), e_data = [11, 48, 85, 122, 159, 196, 233, 19, 56, 93, 130, 167, 204, 241]\<rparr>] \<and>
   segment_assembled
     [\<lparr>e_id = 0, e_type = 0x10, e_flags = 0, e_meta = Some (empty_meta\<lparr>sub := IntVal 0x01\<rparr>), e_data = [1, 0, 0, 0, 0, 0, 0, 0, 0, 0, 0, 0, 0, 0, 0, 0, 0]\<rparr>,
      \<lparr>e_id = 1, e_type = 0x10, e_flags = 0, e_meta = Some (empty_meta\<lparr>sub := IntVal 0xFE, assembled := Some True\<rparr>), e_data = [11, 48, 85, 122, 159, 196, 233, 19, 56, 93, 130, 167, 204, 241]\<rparr>]
   = [\<lparr>e_id = 0, e_type = 0x10, e_flags = 0, e_meta = Some (empty_meta\<lparr>sub := IntVal 0x01\<rparr>), e_data = [1, 0, 0, 0, 0, 0, 0, 0, 0, 0, 0, 0, 0, 0, 0, 0, 0]\<rparr>,
      \<lparr>e_id = 1, e_type = 0x10, e_flags = 0, e_meta = Some (empty_meta\<lparr>sub := IntVal 0xFE, assembled := Some True\<rparr>), e_data = [11, 48, 85, 122, 159, 196, 233, 19, 56, 93, 130, 167, 204, 241]\<rparr>] \<and>
   segment_assembled
     [\<lparr>e_id = 0, e_type = 0x10, e_flags = 0, e_meta = Some (empty_meta\<lparr>sub := IntVal 0x01\<rparr>), e_data = [1, 0, 0, 0, 0, 0, 0, 0, 0, 0, 0, 0, 0, 1, 0, 1, 0]\<rparr>,
      \<lparr>e_id = 1, e_type = 0x10, e_flags = 0, e_meta = Some (empty_meta\<lparr>sub := IntVal 0xFE, assembled := Some True\<rparr>), e_data = [11, 48, 85, 122, 159, 196, 233, 19, 56, 93, 130, 167, 204, 241]\<rparr>]
   = [\<lparr>e_id = 0, e_type = 0x10, e_flags = 0, e_meta = Some (empty_meta\<lparr>sub := IntVal 0x01\<rparr>), e_data = [1, 0, 0, 0, 0, 0, 0, 0, 0, 0, 0, 0, 0, 1, 0, 1, 0]\<rparr>,
      \<lparr>e_id = 1, e_type = 0x10, e_flags = 0, e_meta = Some (empty_meta\<lparr>sub := IntVal 0xFE, assembled := Some True\<rparr>), e_data = [11, 48, 85, 122, 159, 196, 233, 19, 56, 93, 130, 167, 204, 241]\<rparr>]"
  by (intro conjI segment_assembled_noop) (simp_all add: find_examples)

text \<open>
  The claim as stated fails on a collection with two header records: it is not
  returned unchanged, the first header is used and a record is appended.
\<close>

theorem segment_assembled_noop_counterexample:
  "segment_assembled
     [\<lparr>e_id = 0, e_type = 0x10, e_flags = 0, e_meta = Some (empty_meta\<lparr>sub := IntVal 0x01\<rparr>), e_data = [1, 0, 0, 0, 0, 0, 0, 0, 0, 0, 0, 0, 0, 1, 0, 0, 0]\<rparr>,
      \<lparr>e_id = 1, e_type = 0x10, e_flags = 0, e_meta = Some (empty_meta\<lparr>sub := IntVal 0x01\<rparr>), e_data = [1, 0, 0, 0, 0, 0, 0, 0, 0, 0, 0, 0, 0, 1, 0, 0, 0]\<rparr>,
      \<lparr>e_id = 2, e_type = 0x10, e_flags = 0, e_meta = Some (empty_meta\<lparr>sub := IntVal 0xFE, assembled := Some True\<rparr>), e_data = [11, 48, 85, 122, 159, 196, 233, 19, 56, 93, 130, 167, 204, 241]\<rparr>]
   = [\<lparr>e_id = 0, e_type = 0x10, e_flags = 0, e_meta = Some (empty_meta\<lparr>sub := IntVal 0x01\<rparr>), e_data = [1, 0, 0, 0, 0, 0, 0, 0, 0, 0, 0, 0, 0, 1, 0, 0, 0]\<rparr>,
      \<lparr>e_id = 1, e_type = 0x10, e_flags = 0, e_meta = Some (empty_meta\<lparr>sub := IntVal 0x01\<rparr>), e_data = [1, 0, 0, 0, 0, 0, 0, 0, 0, 0, 0, 0, 0, 1, 0, 0, 0]\<rparr>,
      \<lparr>e_id = 2, e_type = 0x10, e_flags = 0, e_meta = Some (empty_meta\<lparr>sub := IntVal 0xFE, assembled := Some True\<rparr>), e_data = [11, 48, 85, 122, 159, 196, 233, 19, 56, 93, 130, 167, 204, 241]\<rparr>,
      \<lparr>e_id = 3, e_type = 0x10, e_flags = 0, e_meta = Some (empty_meta\<lparr>sub := IntVal 0x22, heuristic := Some True, idx := Some 0\<rparr>), e_data = [11, 48, 85, 122, 159, 196, 233, 19, 56, 93, 130, 167, 204, 241]\<rparr>]"
proof -
  let ?h = "\<lparr>e_id = 0, e_type = 0x10, e_flags = 0, e_meta = Some (empty_meta\<lparr>sub := IntVal 0x01\<rparr>), e_data = [1, 0, 0, 0, 0, 0, 0, 0, 0, 0, 0, 0, 0, 1, 0, 0, 0]\<rparr>"
  let ?h2 = "\<lparr>e_id = 1, e_type = 0x10, e_flags = 0, e_meta = Some (empty_meta\<lparr>sub := IntVal 0x01\<rparr>), e_data = [1, 0, 0, 0, 0, 0, 0, 0, 0, 0, 0, 0, 0, 1, 0, 0, 0]\<rparr>"
  let ?a = "\<lparr>e_id = 2, e_type = 0x10, e_flags = 0, e_meta = Some (empty_meta\<lparr>sub := IntVal 0xFE, assembled := Some True\<rparr>), e_data = [11, 48, 85, 122, 159, 196, 233, 19, 56, 93, 130, 167, 204, 241]\<rparr>"
  have f: "find is_header [?h, ?h2, ?a] = Some ?h" "find is_assembled [?h, ?h2, ?a] = Some ?a"
    by (simp_all add: find_examples)
  have p: "parse_preset_header_blob (e_data ?h) = Some \<lparr>h_sub = 1, h_preset = 0, h_data_bytes = 0,
      h_counts = \<lparr>PCGen = 0, Reserved = 0, PCEfx = 0, PCLinks = 0, Layers = 0, LayGen = 0,
        LayFilt = 1, LayLFO = 0, LayEnv = 0, LayCords = 0\<rparr>\<rparr>"
    by (simp add: parse_preset_header_blob_def)
  have n: "next_id [?h, ?h2, ?a] = 3" by (simp add: next_id_def)
  from segment_assembled_carve [OF f p, of 14, OF _ _ _ refl]
  show ?thesis by (simp add: n slice_def)
qed

section \<open>The container packer and the index reader\<close>


lemma length_le_bytes [simp]: "length (le_bytes k v) = k"
  by (induction k arbitrary: v) auto

lemma le_val_le_bytes: "le_val (le_bytes k v) = v mod 256 ^ k"
proof (induction k arbitrary: v)
  case 0
  then show ?case by simp
next
  case (Suc k)
  have "uint (word_of_int v :: byte) = v mod 256"
    by (simp add: uint_word_of_int)
  then have "le_val (le_bytes (Suc k) v) = v mod 256 + 256 * (v div 256 mod 256 ^ k)"
    by (simp add: Suc)
  also have "\<dots> = v mod 256 ^ Suc k"
    by (simp add: zmod_zmult2_eq)
  finally show ?case .
qed

lemma le_val_le_bytes_id: "0 \<le> v \<Longrightarrow> v < 256 ^ k \<Longrightarrow> le_val (le_bytes k v) = v"
  by (simp add: le_val_le_bytes)

lemma unpack_fields_pack:
  "list_all2 (\<lambda>k v. 0 \<le> v \<and> v < 256 ^ k) fmt vs \<Longrightarrow>
   unpack_fields fmt (concat (map2 le_bytes fmt vs) @ rest) = vs
   \<and> length (concat (map2 le_bytes fmt vs)) = sum_list fmt"
proof (induction fmt vs rule: list_all2_induct)
  case Nil
  then show ?case by simp
next
  case (Cons k v fmt vs)
  then show ?case by (simp add: le_val_le_bytes_id)
qed

lemma struct_pack_Inr:
  "struct_pack fmt vs = Inr bs \<longleftrightarrow>
     list_all2 (\<lambda>k v. 0 \<le> v \<and> v < 256 ^ k) fmt vs \<and> bs = concat (map2 le_bytes fmt vs)"
  by (auto simp: struct_pack_def)

lemma length_enc_row: "row_ok r \<Longrightarrow> length (enc_row r) = 18"
  using unpack_fields_pack [of entry_fmt r "[]"]
  by (simp add: row_ok_def enc_row_def entry_fmt_def)

lemma unpack_enc_row: "row_ok r \<Longrightarrow> unpack_fields entry_fmt (enc_row r @ rest) = r"
  using unpack_fields_pack [of entry_fmt r rest]
  by (simp add: row_ok_def enc_row_def)


lemma sub_or_0_pack_sub:
  "pack_sub e = Inr v \<longleftrightarrow> get_sub e \<noteq> NoneVal \<and> v = sub_or_0 e"
  by (auto simp: pack_sub_def sub_or_0_def split: subval.splits)

lemma pack_sub_Inl: "pack_sub e = Inl err \<longleftrightarrow> get_sub e = NoneVal \<and> err = TypeError"
  by (auto simp: pack_sub_def split: subval.splits)

lemma rows_ok_Cons:
  "rows_ok (e # es) off \<longleftrightarrow>
     get_sub e \<noteq> NoneVal
     \<and> row_ok [e_id e, e_type e, sub_or_0 e, e_flags e, off, int (length (e_data e))]
     \<and> rows_ok es (off + int (length (e_data e)))"
  by (auto simp: rows_ok_def)

lemma pack_loop_Inr:
  "pack_loop es off table blobs = Inr (t, b) \<longleftrightarrow>
     rows_ok es off \<and> t = table @ concat (map enc_row (table_rows es off))
     \<and> b = blobs @ concat (map e_data es)"
proof (induction es arbitrary: off table blobs)
  case Nil
  then show ?case by (auto simp: rows_ok_def)
next
  case (Cons e es)
  show ?case
  proof (cases "pack_sub e")
    case (Inl err)
    then have ns: "get_sub e = NoneVal" by (simp add: pack_sub_Inl)
    show ?thesis using ns by (simp add: Inl rows_ok_Cons)
  next
    case (Inr sb)
    then have sb: "get_sub e \<noteq> NoneVal" "sb = sub_or_0 e"
      by (simp_all add: sub_or_0_pack_sub)
    let ?r = "[e_id e, e_type e, sub_or_0 e, e_flags e, off, int (length (e_data e))]"
    show ?thesis
    proof (cases "struct_pack entry_fmt ?r")
      case (Inl err)
      then have "\<not> row_ok ?r"
        by (auto simp: struct_pack_def row_ok_def split: if_splits)
      with Inl Inr sb show ?thesis by (simp add: rows_ok_Cons)
    next
      case r: (Inr row)
      then have ok: "row_ok ?r" and row: "row = enc_row ?r"
        by (simp_all add: struct_pack_Inr row_ok_def enc_row_def)
      show ?thesis
        using Inr sb r ok row Cons.IH by (simp add: rows_ok_Cons)
    qed
  qed
qed


lemma length_table_rows [simp]: "length (table_rows es off) = length es"
  by (induction es arbitrary: off) auto

lemma table_rows_nth:
  "i < length es \<Longrightarrow>
   table_rows es off ! i =
     [e_id (es ! i), e_type (es ! i), sub_or_0 (es ! i), e_flags (es ! i),
      off + sum_list (map (\<lambda>e. int (length (e_data e))) (take i es)),
      int (length (e_data (es ! i)))]"
proof (induction es arbitrary: off i)
  case Nil
  then show ?case by simp
next
  case (Cons e es)
  show ?case
  proof (cases i)
    case 0
    then show ?thesis by simp
  next
    case (Suc j)
    with Cons.prems have "j < length es" by simp
    from Cons.IH [OF this, of "off + int (length (e_data e))"] Suc
    show ?thesis by (simp add: add.assoc)
  qed
qed

lemma drop_concat_fixed:
  "\<forall>r \<in> set rs. length (f r) = m \<Longrightarrow> i \<le> length rs \<Longrightarrow>
   drop (i * m) (concat (map f rs)) = concat (map f (drop i rs))"
proof (induction rs arbitrary: i)
  case Nil
  then show ?case by simp
next
  case (Cons r rs)
  show ?case
  proof (cases i)
    case 0
    then show ?thesis by simp
  next
    case (Suc j)
    with Cons.prems have "j \<le> length rs" "length (f r) = m" by simp_all
    with Cons.IH [of j] Cons.prems(1) Suc show ?thesis by simp
  qed
qed

lemma length_concat_fixed:
  "\<forall>r \<in> set rs. length (f r) = m \<Longrightarrow> length (concat (map f rs)) = length rs * m"
  by (induction rs) auto

lemma unpack_from_row:
  assumes ok: "\<forall>r \<in> set rs. row_ok r" and i: "i < length rs" and h: "length hdr = 8"
  shows "unpack_from entry_fmt (hdr @ concat (map enc_row rs) @ blob) (8 + i * 18) = Inr (rs ! i)"
proof -
  let ?T = "concat (map enc_row rs)"
  have l18: "\<forall>r \<in> set rs. length (enc_row r) = 18"
    using ok by (simp add: length_enc_row)
  have lT: "length ?T = length rs * 18"
    using l18 by (rule length_concat_fixed)
  have dT: "drop (i * 18) ?T = concat (map enc_row (drop i rs))"
    using l18 i by (intro drop_concat_fixed) auto
  have di: "drop i rs = rs ! i # drop (Suc i) rs"
    using i by (simp add: Cons_nth_drop_Suc)
  have "i * 18 \<le> length ?T" using i lT by simp
  then have d: "drop (8 + i * 18) (hdr @ ?T @ blob)
      = enc_row (rs ! i) @ (concat (map enc_row (drop (Suc i) rs)) @ blob)"
    using h dT di by simp
  have "18 + i * 18 \<le> length rs * 18" using i by simp
  then have len: "8 + i * 18 + sum_list entry_fmt \<le> length (hdr @ ?T @ blob)"
    using h lT by (simp add: entry_fmt_def)
  have "row_ok (rs ! i)" using ok i by simp
  then show ?thesis
    unfolding unpack_from_def d using len by (simp add: unpack_enc_row)
qed

lemma index_loop_rows:
  assumes u: "\<And>i. i < n \<Longrightarrow> unpack_from entry_fmt b (8 + i * esz) = Inr (rs ! i)"
  shows "\<forall>i \<in> set js. i < n \<Longrightarrow>
     index_loop b esz js acc = Inr (acc @ map (\<lambda>i. index_entry_of (rs ! i)) js)"
proof (induction js arbitrary: acc)
  case Nil
  then show ?case by simp
next
  case (Cons j js)
  then show ?case by (simp add: u)
qed

lemma scan_container:
  assumes n: "n = length rs" "n < 65536" and ok: "\<forall>r \<in> set rs. row_ok r"
  shows "pack_index_scan_pack
           (MAGIC @ le_bytes 2 1 @ le_bytes 2 (int n) @ concat (map enc_row rs) @ blob)
         = Inr (Some (map index_entry_of rs))"
proof -
  let ?hdr = "MAGIC @ le_bytes 2 1 @ le_bytes 2 (int n)"
  let ?b = "?hdr @ concat (map enc_row rs) @ blob"
  have b: "MAGIC @ le_bytes 2 1 @ le_bytes 2 (int n) @ concat (map enc_row rs) @ blob = ?b"
    by simp
  have lm: "length MAGIC = 4" by (simp add: MAGIC_def)
  have lh: "length ?hdr = 8" by (simp add: lm)
  have m: "take 4 ?b = MAGIC" by (simp add: lm)
  have r: "list_all2 (\<lambda>k v. 0 \<le> v \<and> v < 256 ^ k) [2, 2] [1, int n]"
    using n(2) by simp
  have c: "concat (map2 le_bytes [2, 2] [1, int n]) = le_bytes 2 1 @ le_bytes 2 (int n)"
    by simp
  have d4: "drop 4 ?b = (le_bytes 2 1 @ le_bytes 2 (int n)) @ (concat (map enc_row rs) @ blob)"
    by (simp add: lm)
  have "unpack_fields [2, 2] (concat (map2 le_bytes [2, 2] [1, int n])
          @ (concat (map enc_row rs) @ blob)) = [1, int n]"
    using unpack_fields_pack [OF r] by blast
  then have uf: "unpack_fields [2, 2] (drop 4 ?b) = [1, int n]"
    by (simp only: d4 c)
  have "4 + sum_list [2, 2] \<le> length ?b" by (simp add: lm)
  then have hv: "unpack_from [2, 2] ?b 4 = Inr [1, int n]"
    unfolding unpack_from_def uf by simp
  have u: "unpack_from entry_fmt ?b (8 + i * (4 + 2 + 2 + 2 + 4 + 4)) = Inr (rs ! i)" if "i < n" for i
    using unpack_from_row [OF ok _ lh, of i blob] that n(1) by simp
  have "index_loop ?b (4 + 2 + 2 + 2 + 4 + 4) [0..<n] [] = Inr ([] @ map (\<lambda>i. index_entry_of (rs ! i)) [0..<n])"
    by (rule index_loop_rows [where n = n, OF u]) auto
  also have "map (\<lambda>i. index_entry_of (rs ! i)) [0..<n] = map index_entry_of rs"
    unfolding n(1) by (intro nth_equalityI) auto
  finally have il: "index_loop ?b (4 + 2 + 2 + 2 + 4 + 4) [0..<n] [] = Inr (map index_entry_of rs)"
    by simp
  show ?thesis
    unfolding b pack_index_scan_pack_def m hv using il by (simp add: Let_def)
qed

lemma pack_Inr:
  "pack es = Inr buf \<longleftrightarrow>
     length es < 65536 \<and> rows_ok es (8 + int (length es) * 18)
     \<and> buf = MAGIC @ le_bytes 2 1 @ le_bytes 2 (int (length es))
              @ concat (map enc_row (table_rows es (8 + int (length es) * 18)))
              @ concat (map e_data es)"
proof -
  have v: "struct_pack [2] [1] = Inr (le_bytes 2 1)"
    by (simp add: struct_pack_def)
  show ?thesis
  proof (cases "length es < 65536")
    case True
    then have c: "struct_pack [2] [int (length es)] = Inr (le_bytes 2 (int (length es)))"
      by (simp add: struct_pack_def)
    show ?thesis
    proof (cases "rows_ok es (8 + int (length es) * 18)")
      case ok: True
      then have "pack_loop es (8 + int (length es) * 18) [] [] =
          Inr (concat (map enc_row (table_rows es (8 + int (length es) * 18))),
               concat (map e_data es))"
        by (simp add: pack_loop_Inr)
      then show ?thesis
        unfolding pack_def v c using True ok by (auto simp: Let_def)
    next
      case bad: False
      then have "\<And>t b. pack_loop es (8 + int (length es) * 18) [] [] \<noteq> Inr (t, b)"
        by (simp add: pack_loop_Inr)
      then obtain err where "pack_loop es (8 + int (length es) * 18) [] [] = Inl err"
        by (cases "pack_loop es (8 + int (length es) * 18) [] []") auto
      then show ?thesis
        unfolding pack_def v c using bad by (simp add: Let_def)
    qed
  next
    case False
    then have c: "struct_pack [2] [int (length es)] = Inl StructError"
      by (simp add: struct_pack_def)
    show ?thesis
      unfolding pack_def v c using False by simp
  qed
qed


lemma sum_lengths: "sum_list (map (\<lambda>e. int (length (e_data e))) xs) = int (length (concat (map e_data xs)))"
  by (induction xs) auto

lemma entry_offset_rows:
  "i < length es \<Longrightarrow>
   table_rows es (8 + int (length es) * 18) ! i =
     [e_id (es ! i), e_type (es ! i), sub_or_0 (es ! i), e_flags (es ! i),
      entry_offset es i, int (length (e_data (es ! i)))]"
  by (simp add: table_rows_nth entry_offset_def)

lemma entry_offset_nonneg: "0 \<le> entry_offset es i"
  by (simp add: entry_offset_def sum_lengths)

lemma row_ok_fields:
  "row_ok [a, b, c, d, e, f] \<longleftrightarrow>
     0 \<le> a \<and> a < 2 ^ 32 \<and> 0 \<le> b \<and> b < 2 ^ 16 \<and> 0 \<le> c \<and> c < 2 ^ 16
     \<and> 0 \<le> d \<and> d < 2 ^ 16 \<and> 0 \<le> e \<and> e < 2 ^ 32 \<and> 0 \<le> f \<and> f < 2 ^ 32"
  by (simp add: row_ok_def entry_fmt_def)

lemma rows_ok_fits:
  "length es < 65536 \<and> rows_ok es (8 + int (length es) * 18) \<longleftrightarrow> fits_widths es"
proof -
  have sub: "get_sub e \<noteq> NoneVal \<and> 0 \<le> sub_or_0 e \<and> sub_or_0 e < 2 ^ 16 \<longleftrightarrow>
      (case get_sub e of Missing \<Rightarrow> True | NoneVal \<Rightarrow> False | IntVal v \<Rightarrow> 0 \<le> v \<and> v < 2 ^ 16)"
    for e
    by (simp add: sub_or_0_def split: subval.splits)
  have "rows_ok es (8 + int (length es) * 18) \<longleftrightarrow>
      (\<forall>i < length es. get_sub (es ! i) \<noteq> NoneVal
         \<and> row_ok (table_rows es (8 + int (length es) * 18) ! i))"
    unfolding rows_ok_def by (auto simp: all_set_conv_all_nth)
  also have "\<dots> \<longleftrightarrow> (\<forall>i < length es.
        0 \<le> e_id (es ! i) \<and> e_id (es ! i) < 2 ^ 32 \<and>
        0 \<le> e_type (es ! i) \<and> e_type (es ! i) < 2 ^ 16 \<and>
        (case get_sub (es ! i) of Missing \<Rightarrow> True | NoneVal \<Rightarrow> False
         | IntVal v \<Rightarrow> 0 \<le> v \<and> v < 2 ^ 16) \<and>
        0 \<le> e_flags (es ! i) \<and> e_flags (es ! i) < 2 ^ 16 \<and>
        entry_offset es i < 2 ^ 32 \<and>
        int (length (e_data (es ! i))) < 2 ^ 32)"
    using sub entry_offset_nonneg
    by (intro all_cong) (auto simp: entry_offset_rows row_ok_fields simp del: sub_or_0_def)
  finally show ?thesis
    unfolding fits_widths_def list_all_iff by auto
qed

lemma pack_fits: "(\<exists>buf. pack es = Inr buf) \<longleftrightarrow> fits_widths es"
  unfolding pack_Inr rows_ok_fits [symmetric] by auto

lemma length_rows_bytes:
  assumes "rows_ok es off"
  shows "length (concat (map enc_row (table_rows es off))) = length es * 18"
proof -
  have "\<forall>r \<in> set (table_rows es off). length (enc_row r) = 18"
    using assms by (simp add: rows_ok_def length_enc_row)
  then show ?thesis using length_concat_fixed [of "table_rows es off" enc_row 18] by simp
qed

lemma pack_layout:
  assumes "pack es = Inr buf"
  shows "pack_index_scan_pack buf =
           Inr (Some (map index_entry_of (table_rows es (8 + int (length es) * 18))))"
    and "int (length buf) = entry_offset es (length es)"
    and "i < length es \<Longrightarrow>
           slice buf (nat (entry_offset es i)) (nat (entry_offset es i + int (length (e_data (es ! i)))))
             = e_data (es ! i)"
proof -
  let ?off = "8 + int (length es) * 18"
  let ?T = "concat (map enc_row (table_rows es ?off))"
  let ?B = "concat (map e_data es)"
  from assms have n: "length es < 65536" and ok: "rows_ok es ?off"
    and buf: "buf = MAGIC @ le_bytes 2 1 @ le_bytes 2 (int (length es)) @ ?T @ ?B"
    by (simp_all add: pack_Inr)
  have lT: "length ?T = length es * 18" using ok by (rule length_rows_bytes)
  have lm: "length MAGIC = 4" by (simp add: MAGIC_def)
  show "pack_index_scan_pack buf = Inr (Some (map index_entry_of (table_rows es ?off)))"
    unfolding buf using n ok by (intro scan_container) (simp_all add: rows_ok_def)
  show "int (length buf) = entry_offset es (length es)"
    by (simp add: buf lT lm entry_offset_def sum_lengths)
  assume i: "i < length es"
  let ?p = "length (concat (map e_data (take i es)))"
  have o: "nat (entry_offset es i) = 8 + length es * 18 + ?p"
    by (simp add: entry_offset_def sum_lengths nat_add_distrib nat_mult_distrib)
  have "es = take i es @ es ! i # drop (Suc i) es"
    using i by (simp add: id_take_nth_drop [symmetric])
  then have "?B = concat (map e_data (take i es)) @ e_data (es ! i) @ concat (map e_data (drop (Suc i) es))"
    by (metis concat.simps(2) concat_append list.simps(9) map_append)
  then have dB: "drop ?p ?B = e_data (es ! i) @ concat (map e_data (drop (Suc i) es))"
    by simp
  have "drop (nat (entry_offset es i)) buf = drop ?p ?B"
    unfolding o buf by (simp add: lT lm)
  then show "slice buf (nat (entry_offset es i)) (nat (entry_offset es i + int (length (e_data (es ! i)))))
             = e_data (es ! i)"
    using entry_offset_nonneg [of es i] by (simp add: slice_def dB nat_add_distrib)
qed


lemma index_entry_row:
  "index_entry_of [a, b, c, d, e, f] =
     \<lparr>x_id = a, x_type = b, x_sub = c, x_flags = d, x_offset = e, x_length = f\<rparr>"
  by (simp add: index_entry_of_def)

lemma scanned_entry:
  assumes "i < length es"
  shows "index_entry_of (table_rows es (8 + int (length es) * 18) ! i) =
     \<lparr>x_id = e_id (es ! i), x_type = e_type (es ! i), x_sub = sub_or_0 (es ! i),
      x_flags = e_flags (es ! i), x_offset = entry_offset es i,
      x_length = int (length (e_data (es ! i)))\<rparr>"
  using assms by (simp add: entry_offset_rows index_entry_row)

lemma entry_offset_Suc:
  "i < length es \<Longrightarrow> entry_offset es (Suc i) = entry_offset es i + int (length (e_data (es ! i)))"
  by (simp add: entry_offset_def take_Suc_conv_app_nth)

lemma entry_offset_0: "entry_offset es 0 = 8 + 18 * int (length es)"
  by (simp add: entry_offset_def)

lemma entry_offset_mono: "i \<le> j \<Longrightarrow> j \<le> length es \<Longrightarrow> entry_offset es i \<le> entry_offset es j"
proof (induction j)
  case 0
  then show ?case by simp
next
  case (Suc j)
  show ?case
  proof (cases "i = Suc j")
    case True
    then show ?thesis by simp
  next
    case False
    with Suc have "entry_offset es i \<le> entry_offset es j" by simp
    also have "\<dots> \<le> entry_offset es (Suc j)"
      using Suc.prems by (simp add: entry_offset_Suc)
    finally show ?thesis .
  qed
qed

text \<open>
  The round trip where it holds: for every record collection within the widths whose
  subtypes are integers or missing (\<open>fits_widths\<close>), \<open>pack\<close> returns a buffer, and
  \<open>scan_pack\<close> of pack\_index.py on that buffer returns one entry per record, in the
  same order, with the record's id, type, subtype (0 when missing) and flags, with
  length the record's data length, and the bytes of the buffer from the entry's offset
  to offset plus length are the record's data.
\<close>

lemma pack_scan_roundtrip:
  assumes "fits_widths es"
  shows "\<exists>buf ents. pack es = Inr buf \<and> pack_index_scan_pack buf = Inr (Some ents)
     \<and> length ents = length es
     \<and> (\<forall>i < length es.
          x_id (ents ! i) = e_id (es ! i) \<and> x_type (ents ! i) = e_type (es ! i)
          \<and> x_sub (ents ! i) = sub_or_0 (es ! i) \<and> x_flags (ents ! i) = e_flags (es ! i)
          \<and> x_length (ents ! i) = int (length (e_data (es ! i)))
          \<and> slice buf (nat (x_offset (ents ! i))) (nat (x_offset (ents ! i) + x_length (ents ! i)))
              = e_data (es ! i))"
proof -
  from assms obtain buf where buf: "pack es = Inr buf"
    using pack_fits by blast
  let ?ents = "map index_entry_of (table_rows es (8 + int (length es) * 18))"
  note lay = pack_layout [OF buf]
  have "\<forall>i < length es.
          x_id (?ents ! i) = e_id (es ! i) \<and> x_type (?ents ! i) = e_type (es ! i)
          \<and> x_sub (?ents ! i) = sub_or_0 (es ! i) \<and> x_flags (?ents ! i) = e_flags (es ! i)
          \<and> x_length (?ents ! i) = int (length (e_data (es ! i)))
          \<and> slice buf (nat (x_offset (?ents ! i))) (nat (x_offset (?ents ! i) + x_length (?ents ! i)))
              = e_data (es ! i)"
    using lay(3) by (simp add: scanned_entry)
  moreover have "length ?ents = length es" by simp
  ultimately show ?thesis using buf lay(1) by blast
qed

text \<open>
  Claim C2 (packer tiling invariant), as amended. \<open>pack\<close> returns a container for
  every record collection that fits the format's widths with every subtype an integer
  or missing. Whenever it returns one, the
  entry table read back from it has one entry per record, the first entry's offset is
  \<open>8 + 18 * count\<close> (a table entry is \<open>4+2+2+2+4+4 = 18\<close> bytes, not 16), each
  entry's offset plus length is the next entry's offset, and the last entry's offset
  plus length is the byte length of the container; so the regions tile the blob region
  and none extends past the end of the buffer.
\<close>

theorem pack_tiling:
  "(fits_widths es \<longrightarrow> (\<exists>buf. pack es = Inr buf))
   \<and> (\<forall>buf. pack es = Inr buf \<longrightarrow>
        (\<exists>ents. pack_index_scan_pack buf = Inr (Some ents) \<and> length ents = length es
           \<and> (ents \<noteq> [] \<longrightarrow> x_offset (ents ! 0) = 8 + 18 * int (length es))
           \<and> (\<forall>i. Suc i < length ents \<longrightarrow>
                 x_offset (ents ! i) + x_length (ents ! i) = x_offset (ents ! Suc i))
           \<and> (ents \<noteq> [] \<longrightarrow>
                 x_offset (last ents) + x_length (last ents) = int (length buf))
           \<and> (\<forall>i < length ents.
                 0 \<le> x_length (ents ! i) \<and> 8 + 18 * int (length es) \<le> x_offset (ents ! i)
                 \<and> x_offset (ents ! i) + x_length (ents ! i) \<le> int (length buf))))"
proof (intro conjI allI impI)
  assume "fits_widths es"
  then show "\<exists>buf. pack es = Inr buf" by (simp add: pack_fits)
next
  fix buf assume buf: "pack es = Inr buf"
  let ?ents = "map index_entry_of (table_rows es (8 + int (length es) * 18))"
  note lay = pack_layout(1,2) [OF buf]
  have len: "length ?ents = length es" by simp
  have first: "?ents \<noteq> [] \<longrightarrow> x_offset (?ents ! 0) = 8 + 18 * int (length es)"
  proof
    assume "?ents \<noteq> []"
    then have "0 < length es" by auto
    then show "x_offset (?ents ! 0) = 8 + 18 * int (length es)"
      by (simp add: scanned_entry entry_offset_0)
  qed
  have step: "\<forall>i. Suc i < length ?ents \<longrightarrow>
                 x_offset (?ents ! i) + x_length (?ents ! i) = x_offset (?ents ! Suc i)"
    by (simp add: scanned_entry entry_offset_Suc)
  have lst: "?ents \<noteq> [] \<longrightarrow> x_offset (last ?ents) + x_length (last ?ents) = int (length buf)"
  proof
    assume ne: "?ents \<noteq> []"
    then have es: "es \<noteq> []" by auto
    then have l: "length es - 1 < length es" "Suc (length es - 1) = length es" by simp_all
    have "last ?ents = ?ents ! (length es - 1)"
      using ne by (simp add: last_conv_nth)
    then show "x_offset (last ?ents) + x_length (last ?ents) = int (length buf)"
      using entry_offset_Suc [OF l(1)] l lay(2) by (simp add: scanned_entry)
  qed
  have bnd: "\<forall>i < length ?ents.
                 0 \<le> x_length (?ents ! i) \<and> 8 + 18 * int (length es) \<le> x_offset (?ents ! i)
                 \<and> x_offset (?ents ! i) + x_length (?ents ! i) \<le> int (length buf)"
  proof (intro allI impI)
    fix i assume "i < length ?ents"
    then have i: "i < length es" by simp
    have "entry_offset es 0 \<le> entry_offset es i"
      using i by (intro entry_offset_mono) simp_all
    moreover have "entry_offset es (Suc i) \<le> entry_offset es (length es)"
      using i by (intro entry_offset_mono) simp_all
    ultimately show "0 \<le> x_length (?ents ! i) \<and> 8 + 18 * int (length es) \<le> x_offset (?ents ! i)
                 \<and> x_offset (?ents ! i) + x_length (?ents ! i) \<le> int (length buf)"
      using i lay(2) by (simp add: scanned_entry entry_offset_0 entry_offset_Suc)
  qed
  from lay(1) len first step lst bnd
  show "\<exists>ents. pack_index_scan_pack buf = Inr (Some ents) \<and> length ents = length es
           \<and> (ents \<noteq> [] \<longrightarrow> x_offset (ents ! 0) = 8 + 18 * int (length es))
           \<and> (\<forall>i. Suc i < length ents \<longrightarrow>
                 x_offset (ents ! i) + x_length (ents ! i) = x_offset (ents ! Suc i))
           \<and> (ents \<noteq> [] \<longrightarrow>
                 x_offset (last ents) + x_length (last ents) = int (length buf))
           \<and> (\<forall>i < length ents.
                 0 \<le> x_length (ents ! i) \<and> 8 + 18 * int (length es) \<le> x_offset (ents ! i)
                 \<and> x_offset (ents ! i) + x_length (ents ! i) \<le> int (length buf))"
    by blast
qed

text \<open>Outside the widths \<open>pack\<close> raises: an id of \<open>2^32\<close> is a \<open>struct.error\<close>.\<close>

lemma pack_struct_error:
  "pack [\<lparr>e_id = 2 ^ 32, e_type = 0, e_flags = 0, e_meta = None, e_data = []\<rparr>] = Inl StructError"
  by (simp add: pack_def struct_pack_def pack_sub_def get_sub_def entry_fmt_def)

text \<open>
  Claim C1 (round trip), at an input where the code breaks it. The frame
  \<open>F0 18 0F 00 55 22 01 F7\<close> matches the device specification, and its command 0x22
  carries no subcommand byte, so \<open>canonize\<close> makes one record with \<open>None\<close> stored
  under \<open>sub\<close>. Every field of the record fits its width (id 0, type 0x22, flags 0,
  one data byte, the subtype absent, which \<open>assemble_preset\<close> and the sidecar writer
  read as 0), yet \<open>pack\<close> returns no container to read back: \<open>int(None)\<close> is a
  \<open>TypeError\<close>.
\<close>

theorem pack_none_subtype:
  "canonize [[0xF0, 0x18, 0x0F, 0x00, 0x55, 0x22, 0x01, 0xF7]]
     (Some \<lparr>manufacturerId = [0x18], familyId = Some 0x0F, editor = Some 0x55,
             checksum_type = None\<rparr>)
     = [\<lparr>e_id = 0, e_type = 0x22, e_flags = 0,
         e_meta = Some (empty_meta\<lparr>family := Some 0x0F, dev := Some 0x00, cmd := Some 0x22,
                    sub := NoneVal, validChecksum := Some True\<rparr>),
         e_data = [0x01]\<rparr>]
   \<and> sub_or_0 \<lparr>e_id = 0, e_type = 0x22, e_flags = 0,
         e_meta = Some (empty_meta\<lparr>family := Some 0x0F, dev := Some 0x00, cmd := Some 0x22,
                    sub := NoneVal, validChecksum := Some True\<rparr>),
         e_data = [0x01]\<rparr> = 0
   \<and> pack [\<lparr>e_id = 0, e_type = 0x22, e_flags = 0,
         e_meta = Some (empty_meta\<lparr>family := Some 0x0F, dev := Some 0x00, cmd := Some 0x22,
                    sub := NoneVal, validChecksum := Some True\<rparr>),
         e_data = [0x01]\<rparr>] = Inl TypeError"
  by (simp add: canonize_def proteus_parse_def meta_of_parsed_def sub_or_0_def
        pack_def struct_pack_def pack_sub_def get_sub_def entry_fmt_def)

lemma le_bytes_num:
  "le_bytes 2 v = [word_of_int v, word_of_int (v div 256)]"
  "le_bytes 4 v = [word_of_int v, word_of_int (v div 256), word_of_int (v div 256 div 256),
     word_of_int (v div 256 div 256 div 256)]"
  by (simp_all add: eval_nat_numeral)

text \<open>
  The round trip at two records, one with subtype 0x22 and two data bytes, one without
  \<open>meta\<close> and one data byte: the container of 47 bytes, the two entries read back, and
  the two payloads at their offsets 44 and 46.
\<close>

lemma pack_scan_roundtrip_example:
  "fits_widths
     [\<lparr>e_id = 0, e_type = 16, e_flags = 0, e_meta = Some (empty_meta\<lparr>sub := IntVal 34\<rparr>), e_data = [222, 173]\<rparr>,
      \<lparr>e_id = 1, e_type = 0, e_flags = 0, e_meta = None, e_data = [190]\<rparr>]
   \<and> pack
     [\<lparr>e_id = 0, e_type = 16, e_flags = 0, e_meta = Some (empty_meta\<lparr>sub := IntVal 34\<rparr>), e_data = [222, 173]\<rparr>,
      \<lparr>e_id = 1, e_type = 0, e_flags = 0, e_meta = None, e_data = [190]\<rparr>]
     = Inr [90, 80, 75, 49, 1, 0, 2, 0, 0, 0, 0, 0, 16, 0, 34, 0, 0, 0,
         44, 0, 0, 0, 2, 0, 0, 0, 1, 0, 0, 0, 0, 0, 0, 0, 0, 0,
         46, 0, 0, 0, 1, 0, 0, 0, 222, 173, 190]
   \<and> pack_index_scan_pack
         [90, 80, 75, 49, 1, 0, 2, 0, 0, 0, 0, 0, 16, 0, 34, 0, 0, 0,
         44, 0, 0, 0, 2, 0, 0, 0, 1, 0, 0, 0, 0, 0, 0, 0, 0, 0,
         46, 0, 0, 0, 1, 0, 0, 0, 222, 173, 190]
     = Inr (Some [\<lparr>x_id = 0, x_type = 16, x_sub = 34, x_flags = 0, x_offset = 44, x_length = 2\<rparr>,
      \<lparr>x_id = 1, x_type = 0, x_sub = 0, x_flags = 0, x_offset = 46, x_length = 1\<rparr>])
   \<and> slice ([90, 80, 75, 49, 1, 0, 2, 0, 0, 0, 0, 0, 16, 0, 34, 0, 0, 0,
         44, 0, 0, 0, 2, 0, 0, 0, 1, 0, 0, 0, 0, 0, 0, 0, 0, 0,
         46, 0, 0, 0, 1, 0, 0, 0, 222, 173, 190] :: byte list) 44 46 = [222, 173]
   \<and> slice ([90, 80, 75, 49, 1, 0, 2, 0, 0, 0, 0, 0, 16, 0, 34, 0, 0, 0,
         44, 0, 0, 0, 2, 0, 0, 0, 1, 0, 0, 0, 0, 0, 0, 0, 0, 0,
         46, 0, 0, 0, 1, 0, 0, 0, 222, 173, 190] :: byte list) 46 47 = [190]"
proof -
  let ?es = "[\<lparr>e_id = 0, e_type = 16, e_flags = 0, e_meta = Some (empty_meta\<lparr>sub := IntVal 34\<rparr>), e_data = [222, 173]\<rparr>,
      \<lparr>e_id = 1, e_type = 0, e_flags = 0, e_meta = None, e_data = [190]\<rparr>]"
  let ?b = "[90, 80, 75, 49, 1, 0, 2, 0, 0, 0, 0, 0, 16, 0, 34, 0, 0, 0,
         44, 0, 0, 0, 2, 0, 0, 0, 1, 0, 0, 0, 0, 0, 0, 0, 0, 0,
         46, 0, 0, 0, 1, 0, 0, 0, 222, 173, 190] :: byte list"
  let ?xs = "[\<lparr>x_id = 0, x_type = 16, x_sub = 34, x_flags = 0, x_offset = 44, x_length = 2\<rparr>,
      \<lparr>x_id = 1, x_type = 0, x_sub = 0, x_flags = 0, x_offset = 46, x_length = 1\<rparr>]"
  have fw: "fits_widths ?es"
    by (simp add: fits_widths_def entry_offset_def get_sub_def upt_rec)
  have pk: "pack ?es = Inr ?b"
    by (simp add: pack_def struct_pack_def pack_sub_def get_sub_def entry_fmt_def MAGIC_def le_bytes_num)
  have sc: "pack_index_scan_pack ?b = Inr (Some ?xs)"
    by (simp add: pack_index_scan_pack_def unpack_from_def entry_fmt_def MAGIC_def index_entry_of_def upt_rec)
  from pack_scan_roundtrip [OF fw] obtain buf ents where
    r: "pack ?es = Inr buf" "pack_index_scan_pack buf = Inr (Some ents)"
      "\<forall>i < length ?es.
          x_id (ents ! i) = e_id (?es ! i) \<and> x_type (ents ! i) = e_type (?es ! i)
          \<and> x_sub (ents ! i) = sub_or_0 (?es ! i) \<and> x_flags (ents ! i) = e_flags (?es ! i)
          \<and> x_length (ents ! i) = int (length (e_data (?es ! i)))
          \<and> slice buf (nat (x_offset (ents ! i))) (nat (x_offset (ents ! i) + x_length (ents ! i)))
              = e_data (?es ! i)"
    by blast
  from r(1) pk have b: "buf = ?b" by simp
  from r(2) sc have e: "ents = ?xs" unfolding b by simp
  from r(3) [rule_format, of 0] have s0: "slice ?b 44 46 = [222, 173]"
    unfolding b e by simp
  from r(3) [rule_format, of 1] have s1: "slice ?b 46 47 = [190]"
    unfolding b e by simp
  from fw pk sc s0 s1 show ?thesis by (intro conjI)
qed

text \<open>
  The theorem at three records, the second with no data: the container of 66 bytes;
  the offsets read back are 62, 65 and 65, with \<open>62 = 8 + 18 * 3\<close>, \<open>62 + 3 = 65\<close>,
  \<open>65 + 0 = 65\<close> and \<open>65 + 1 = 66\<close>.
\<close>

theorem pack_tiling_witness:
  "fits_widths
     [\<lparr>e_id = 7, e_type = 16, e_flags = 0, e_meta = Some (empty_meta\<lparr>sub := IntVal 254\<rparr>), e_data = [17, 41, 51]\<rparr>,
      \<lparr>e_id = 8, e_type = 23117, e_flags = 17969, e_meta = None, e_data = []\<rparr>,
      \<lparr>e_id = 9, e_type = 16, e_flags = 0, e_meta = Some (empty_meta\<lparr>sub := IntVal 1\<rparr>), e_data = [68]\<rparr>]
   \<and> pack
     [\<lparr>e_id = 7, e_type = 16, e_flags = 0, e_meta = Some (empty_meta\<lparr>sub := IntVal 254\<rparr>), e_data = [17, 41, 51]\<rparr>,
      \<lparr>e_id = 8, e_type = 23117, e_flags = 17969, e_meta = None, e_data = []\<rparr>,
      \<lparr>e_id = 9, e_type = 16, e_flags = 0, e_meta = Some (empty_meta\<lparr>sub := IntVal 1\<rparr>), e_data = [68]\<rparr>]
     = Inr [90, 80, 75, 49, 1, 0, 3, 0, 7, 0, 0, 0, 16, 0, 254, 0, 0, 0,
         62, 0, 0, 0, 3, 0, 0, 0, 8, 0, 0, 0, 77, 90, 0, 0, 49, 70,
         65, 0, 0, 0, 0, 0, 0, 0, 9, 0, 0, 0, 16, 0, 1, 0, 0, 0,
         65, 0, 0, 0, 1, 0, 0, 0, 17, 41, 51, 68]
   \<and> pack_index_scan_pack
         [90, 80, 75, 49, 1, 0, 3, 0, 7, 0, 0, 0, 16, 0, 254, 0, 0, 0,
         62, 0, 0, 0, 3, 0, 0, 0, 8, 0, 0, 0, 77, 90, 0, 0, 49, 70,
         65, 0, 0, 0, 0, 0, 0, 0, 9, 0, 0, 0, 16, 0, 1, 0, 0, 0,
         65, 0, 0, 0, 1, 0, 0, 0, 17, 41, 51, 68]
     = Inr (Some [\<lparr>x_id = 7, x_type = 16, x_sub = 254, x_flags = 0, x_offset = 62, x_length = 3\<rparr>,
      \<lparr>x_id = 8, x_type = 23117, x_sub = 0, x_flags = 17969, x_offset = 65, x_length = 0\<rparr>,
      \<lparr>x_id = 9, x_type = 16, x_sub = 1, x_flags = 0, x_offset = 65, x_length = 1\<rparr>])
   \<and> length ([90, 80, 75, 49, 1, 0, 3, 0, 7, 0, 0, 0, 16, 0, 254, 0, 0, 0,
         62, 0, 0, 0, 3, 0, 0, 0, 8, 0, 0, 0, 77, 90, 0, 0, 49, 70,
         65, 0, 0, 0, 0, 0, 0, 0, 9, 0, 0, 0, 16, 0, 1, 0, 0, 0,
         65, 0, 0, 0, 1, 0, 0, 0, 17, 41, 51, 68] :: byte list) = 66"
proof -
  let ?es = "[\<lparr>e_id = 7, e_type = 16, e_flags = 0, e_meta = Some (empty_meta\<lparr>sub := IntVal 254\<rparr>), e_data = [17, 41, 51]\<rparr>,
      \<lparr>e_id = 8, e_type = 23117, e_flags = 17969, e_meta = None, e_data = []\<rparr>,
      \<lparr>e_id = 9, e_type = 16, e_flags = 0, e_meta = Some (empty_meta\<lparr>sub := IntVal 1\<rparr>), e_data = [68]\<rparr>]"
  let ?b = "[90, 80, 75, 49, 1, 0, 3, 0, 7, 0, 0, 0, 16, 0, 254, 0, 0, 0,
         62, 0, 0, 0, 3, 0, 0, 0, 8, 0, 0, 0, 77, 90, 0, 0, 49, 70,
         65, 0, 0, 0, 0, 0, 0, 0, 9, 0, 0, 0, 16, 0, 1, 0, 0, 0,
         65, 0, 0, 0, 1, 0, 0, 0, 17, 41, 51, 68] :: byte list"
  let ?xs = "[\<lparr>x_id = 7, x_type = 16, x_sub = 254, x_flags = 0, x_offset = 62, x_length = 3\<rparr>,
      \<lparr>x_id = 8, x_type = 23117, x_sub = 0, x_flags = 17969, x_offset = 65, x_length = 0\<rparr>,
      \<lparr>x_id = 9, x_type = 16, x_sub = 1, x_flags = 0, x_offset = 65, x_length = 1\<rparr>]"
  have fw: "fits_widths ?es"
    by (simp add: fits_widths_def entry_offset_def get_sub_def upt_rec)
  from pack_tiling [of ?es] fw obtain buf where buf: "pack ?es = Inr buf"
    by blast
  have pk: "pack ?es = Inr ?b"
    by (simp add: pack_def struct_pack_def pack_sub_def get_sub_def entry_fmt_def MAGIC_def le_bytes_num)
  with buf have b: "buf = ?b" by simp
  from pack_tiling [of ?es] buf obtain ents where
    r: "pack_index_scan_pack buf = Inr (Some ents)" "length ents = length ?es"
       "ents \<noteq> [] \<longrightarrow> x_offset (last ents) + x_length (last ents) = int (length buf)"
    by blast
  have sc: "pack_index_scan_pack ?b = Inr (Some ?xs)"
    by (simp add: pack_index_scan_pack_def unpack_from_def entry_fmt_def MAGIC_def index_entry_of_def upt_rec)
  with r(1) have e: "ents = ?xs" unfolding b by simp
  from r(3) have l: "length ?b = 66" unfolding e b by simp
  from fw pk sc l show ?thesis by (intro conjI)
qed

text \<open>
  The claim as stated fails already for one record: the entry's offset is 26, that is
  \<open>8 + 18 * 1\<close>, and not \<open>8 + 16 * 1\<close>.
\<close>

theorem pack_tiling_counterexample:
  "pack [\<lparr>e_id = 0, e_type = 0, e_flags = 0, e_meta = None, e_data = [170]\<rparr>]
     = Inr [90, 80, 75, 49, 1, 0, 1, 0, 0, 0, 0, 0, 0, 0, 0, 0, 0, 0,
         26, 0, 0, 0, 1, 0, 0, 0, 170]
   \<and> pack_index_scan_pack
         [90, 80, 75, 49, 1, 0, 1, 0, 0, 0, 0, 0, 0, 0, 0, 0, 0, 0,
         26, 0, 0, 0, 1, 0, 0, 0, 170]
     = Inr (Some [\<lparr>x_id = 0, x_type = 0, x_sub = 0, x_flags = 0, x_offset = 26, x_length = 1\<rparr>])
   \<and> (26 :: int) \<noteq> 8 + 16 * 1"
proof -
  have pk: "pack [\<lparr>e_id = 0, e_type = 0, e_flags = 0, e_meta = None, e_data = [170]\<rparr>]
     = Inr [90, 80, 75, 49, 1, 0, 1, 0, 0, 0, 0, 0, 0, 0, 0, 0, 0, 0,
         26, 0, 0, 0, 1, 0, 0, 0, 170]"
    by (simp add: pack_def struct_pack_def pack_sub_def get_sub_def entry_fmt_def MAGIC_def le_bytes_num)
  have sc: "pack_index_scan_pack
         [90, 80, 75, 49, 1, 0, 1, 0, 0, 0, 0, 0, 0, 0, 0, 0, 0, 0,
         26, 0, 0, 0, 1, 0, 0, 0, 170]
     = Inr (Some [\<lparr>x_id = 0, x_type = 0, x_sub = 0, x_flags = 0, x_offset = 26, x_length = 1\<rparr>])"
    by (simp add: pack_index_scan_pack_def unpack_from_def entry_fmt_def MAGIC_def index_entry_of_def upt_rec)
  from pk sc show ?thesis by simp
qed

section \<open>The readers on malformed containers\<close>

lemma unpack_from_header:
  "8 \<le> length b \<Longrightarrow>
   unpack_from [2, 2] b 4 = Inr [le_val (take 2 (drop 4 b)), le_val (take 2 (drop 6 b))]"
  by (simp add: unpack_from_def add.commute)

text \<open>
  Claim C9 (reader robustness on malformed containers), as amended. For every byte
  buffer whose first four bytes are not the magic \<open>ZPK1\<close> (whatever its length), and for
  every buffer of at least 8 bytes with the magic and a version other than 1, both
  readers return no results (\<open>None\<close> for pack\_index, the empty list for
  dump\_layer\_filters) and raise nothing.
\<close>

theorem scan_pack_malformed:
  assumes "take 4 b \<noteq> MAGIC \<or> (8 \<le> length b \<and> le_val (take 2 (drop 4 b)) \<noteq> 1)"
  shows "pack_index_scan_pack b = Inr None \<and> dump_layer_filters_scan_pack b = Inr []"
proof (cases "take 4 b = MAGIC")
  case False
  then show ?thesis
    by (simp add: pack_index_scan_pack_def dump_layer_filters_scan_pack_def)
next
  case True
  with assms have "8 \<le> length b" "le_val (take 2 (drop 4 b)) \<noteq> 1" by simp_all
  then show ?thesis
    by (simp add: pack_index_scan_pack_def dump_layer_filters_scan_pack_def True
          unpack_from_header)
qed

text \<open>
  The theorem at a buffer of three bytes (wrong magic) and at a header with version 2.
\<close>

theorem scan_pack_malformed_witness:
  "pack_index_scan_pack [0x5A, 0x50, 0x4B] = Inr None
   \<and> dump_layer_filters_scan_pack [0x5A, 0x50, 0x4B] = Inr []
   \<and> pack_index_scan_pack [0x5A, 0x50, 0x4B, 0x31, 2, 0, 1, 0] = Inr None
   \<and> dump_layer_filters_scan_pack [0x5A, 0x50, 0x4B, 0x31, 2, 0, 1, 0] = Inr []"
  using scan_pack_malformed [of "[0x5A, 0x50, 0x4B]"]
    scan_pack_malformed [of "[0x5A, 0x50, 0x4B, 0x31, 2, 0, 1, 0]"]
  by (simp add: MAGIC_def)

text \<open>
  The claim as stated fails on buffers that are too short: with the magic alone, the
  header cannot be read, and with a header that declares one entry and no table, the
  entry cannot be read; \<open>struct.unpack_from\<close> raises in both readers.
\<close>

theorem scan_pack_malformed_counterexample:
  "pack_index_scan_pack [0x5A, 0x50, 0x4B, 0x31] = Inl StructError
   \<and> dump_layer_filters_scan_pack [0x5A, 0x50, 0x4B, 0x31] = Inl StructError
   \<and> pack_index_scan_pack [0x5A, 0x50, 0x4B, 0x31, 1, 0, 1, 0] = Inl StructError
   \<and> dump_layer_filters_scan_pack [0x5A, 0x50, 0x4B, 0x31, 1, 0, 1, 0] = Inl StructError"
  by (simp add: pack_index_scan_pack_def dump_layer_filters_scan_pack_def MAGIC_def
        unpack_from_def entry_fmt_def upt_rec)

section \<open>The coefficient synthesizer\<close>

lemma coeffs_unfold:
  "coeff_a1 (poles_to_biquad_coeffs r theta) = max (- 1.999) (min 1.999 (- 2 * r * cos theta))"
  "coeff_a2 (poles_to_biquad_coeffs r theta) = max (- 0.999) (min 0.999 (r * r))"
  by (simp_all add: poles_to_biquad_coeffs_def coeff_a1_def coeff_a2_def Let_def)

lemma two_r_cos_bound:
  fixes r theta :: real
  assumes "0 < r" "r < 1"
  shows "\<bar>2 * r * cos theta\<bar> \<le> 2 * r" "2 * r < 1 + r * r"
proof -
  have "\<bar>cos theta\<bar> \<le> 1" by (rule abs_cos_le_one)
  then have "\<bar>2 * r * cos theta\<bar> = 2 * r * \<bar>cos theta\<bar>"
    using assms by (simp add: abs_mult)
  also have "\<dots> \<le> 2 * r * 1"
    using assms \<open>\<bar>cos theta\<bar> \<le> 1\<close> by (intro mult_left_mono) auto
  finally show "\<bar>2 * r * cos theta\<bar> \<le> 2 * r" by simp
  have "0 < (1 - r) * (1 - r)" using assms by simp
  then show "2 * r < 1 + r * r" by (simp add: algebra_simps)
qed

lemma coeffs_weak_triangle:
  assumes "0 < r" "r < 1"
  shows "\<bar>coeff_a2 (poles_to_biquad_coeffs r theta)\<bar> < 1"
    and "\<bar>coeff_a1 (poles_to_biquad_coeffs r theta)\<bar> \<le> 1 + coeff_a2 (poles_to_biquad_coeffs r theta)"
proof -
  note b = two_r_cos_bound(1) [OF assms, of theta] two_r_cos_bound(2) [OF assms]
  have r2: "0 < r * r" using assms by simp
  show "\<bar>coeff_a2 (poles_to_biquad_coeffs r theta)\<bar> < 1"
    using r2 by (simp add: coeffs_unfold max_def min_def)
  show "\<bar>coeff_a1 (poles_to_biquad_coeffs r theta)\<bar> \<le> 1 + coeff_a2 (poles_to_biquad_coeffs r theta)"
    using b r2 by (auto simp: coeffs_unfold max_def min_def abs_if split: if_splits)
qed

lemma coeffs_strict_triangle:
  assumes "0 < r" "r < 0.9995"
  shows "\<bar>coeff_a1 (poles_to_biquad_coeffs r theta)\<bar> < 1 + coeff_a2 (poles_to_biquad_coeffs r theta)"
proof -
  from assms have r1: "r < 1" by simp
  note b = two_r_cos_bound(1) [OF assms(1) r1, of theta] two_r_cos_bound(2) [OF assms(1) r1]
  have r2: "0 < r * r" using assms by simp
  show ?thesis
    using b r2 assms(2) by (auto simp: coeffs_unfold max_def min_def abs_if split: if_splits)
qed

text \<open>
  Claim C5 (coefficient stability), at the input where the code breaks it. With floats
  read as reals, radius \<open>r = 0.9999\<close> and angle \<open>theta = 0\<close> give \<open>a1 = -1.9998\<close>,
  clamped to \<open>-1.999\<close>, and \<open>a2 = 0.99980001\<close>, clamped to \<open>0.999\<close>: then
  \<open>\<bar>a1\<bar> = 1 + a2\<close>, on the edge of the stability triangle and not strictly inside.
\<close>

theorem poles_to_biquad_coeffs_edge:
  "poles_to_biquad_coeffs 0.9999 0 = (0.00005, 0, - 0.00005, - 1.999, 0.999)
   \<and> \<bar>coeff_a1 (poles_to_biquad_coeffs 0.9999 0)\<bar> = 1 + coeff_a2 (poles_to_biquad_coeffs 0.9999 0)
   \<and> \<not> \<bar>coeff_a1 (poles_to_biquad_coeffs 0.9999 0)\<bar> < 1 + coeff_a2 (poles_to_biquad_coeffs 0.9999 0)"
  by (simp add: poles_to_biquad_coeffs_def coeff_a1_def coeff_a2_def Let_def)

section \<open>The ids of the pipeline\<close>

lemma next_id_gt: "e \<in> set es \<Longrightarrow> e_id e < next_id es"
proof -
  assume "e \<in> set es"
  then have "e_id e \<in> set (map e_id es @ [0])" by simp
  then have "e_id e \<le> Max (set (map e_id es @ [0]))" by (intro Max_ge) auto
  then show ?thesis by (simp add: next_id_def)
qed

lemma canonize_from_ids:
  "sorted_wrt (<) (map e_id (canonize_from i fs spec))
   \<and> (\<forall>e \<in> set (canonize_from i fs spec). int i \<le> e_id e \<and> e_id e < int (i + length fs))"
proof (induction fs arbitrary: i)
  case Nil
  then show ?case by simp
next
  case (Cons f fs)
  have ih: "sorted_wrt (<) (map e_id (canonize_from (Suc i) fs spec))"
    "\<forall>e \<in> set (canonize_from (Suc i) fs spec). int (Suc i) \<le> e_id e \<and> e_id e < int (Suc i + length fs)"
    using Cons [of "Suc i"] by blast+
  then have gt: "\<forall>e \<in> set (canonize_from (Suc i) fs spec). int i < e_id e"
    by fastforce
  from ih(2) have rng: "\<forall>e \<in> set (canonize_from (Suc i) fs spec). int i \<le> e_id e \<and> e_id e < int (i + length (f # fs))"
    by fastforce
  show ?case
    using ih(1) gt rng
    by (auto simp: Let_def split: option.splits)
qed

lemma sorted_wrt_less_distinct: "sorted_wrt (<) (xs :: int list) \<Longrightarrow> distinct xs"
  by (induction xs) auto

lemma assemble_preset_fresh:
  "\<exists>new. assemble_preset es = es @ new \<and> fresh_ids es new"
proof (cases "assemble_preset es = es")
  case True
  then have "assemble_preset es = es @ [] \<and> fresh_ids es []" by (simp add: fresh_ids_def)
  then show ?thesis by blast
next
  case False
  then obtain x where "assemble_preset es = es @ [x]" "e_id x = next_id es"
    by (auto simp: assemble_preset_def Let_def split: if_splits)
  then have "assemble_preset es = es @ [x] \<and> fresh_ids es [x]" by (simp add: fresh_ids_def)
  then show ?thesis by blast
qed

lemma segment_assembled_fresh:
  "\<exists>new. segment_assembled es = es @ new \<and> fresh_ids es new"
proof (cases "segment_assembled es = es")
  case True
  then have "segment_assembled es = es @ [] \<and> fresh_ids es []" by (simp add: fresh_ids_def)
  then show ?thesis by blast
next
  case False
  then obtain n fb where "segment_assembled es = segment_loop [0..<n] fb (next_id es) es"
    by (auto simp: segment_assembled_def Let_def split: option.splits if_splits)
  then have "segment_assembled es = es @ map (\<lambda>i. \<lparr>e_id = next_id es + int i, e_type = 0x10, e_flags = 0,
                 e_meta = Some (empty_meta\<lparr>sub := IntVal 0x22, heuristic := Some True,
                                            idx := Some i\<rparr>),
                 e_data = slice fb (i * 14) ((i + 1) * 14)\<rparr>) [0..<n]"
    by (simp add: segment_loop_upt)
  moreover have "fresh_ids es (map (\<lambda>i. \<lparr>e_id = next_id es + int i, e_type = 0x10, e_flags = 0,
                 e_meta = Some (empty_meta\<lparr>sub := IntVal 0x22, heuristic := Some True,
                                            idx := Some i\<rparr>),
                 e_data = slice fb (i * 14) ((i + 1) * 14)\<rparr>) [0..<n])"
    by (simp add: fresh_ids_def comp_def)
  ultimately show ?thesis by blast
qed

lemma augment_loop_appends:
  "augment_loop es tbl gen nid acc = Inr z \<Longrightarrow>
   \<exists>new. z = acc @ new \<and> map e_id new = map (\<lambda>j. nid + int j) [0..<length new]"
proof (induction es arbitrary: nid acc)
  case Nil
  then show ?case by simp
next
  case (Cons e es)
  let ?x = "\<lambda>d. \<lparr>e_id = nid, e_type = 0x5A4D, e_flags = 0x4631,
              e_meta = Some (empty_meta\<lparr>zmf1 := Some True,
                 model := Some (model_names ! (unat (e_data e ! 0) mod 3)),
                 source_id := Some (e_id e)\<rparr>),
              e_data = d\<rparr>"
  from Cons.prems consider
      (skip) "augment_loop es tbl gen nid acc = Inr z"
    | (add) d where "augment_loop es tbl gen (nid + 1) (acc @ [?x d]) = Inr z"
    by (auto simp: Let_def split: if_splits option.splits sum.splits)
  then show ?case
  proof cases
    case skip
    then show ?thesis by (rule Cons.IH)
  next
    case add
    from Cons.IH [OF this] obtain new where
      new: "z = (acc @ [?x d]) @ new" "map e_id new = map (\<lambda>j. nid + 1 + int j) [0..<length new]"
      by blast
    have "map (\<lambda>j. nid + int j) [0..<length (?x d # new)]
        = nid # map (\<lambda>j. nid + 1 + int j) [0..<length new]"
      by (simp add: upt_conv_Cons map_Suc_upt [symmetric] del: upt_Suc)
    with new have "z = acc @ (?x d # new) \<and> map e_id (?x d # new) = map (\<lambda>j. nid + int j) [0..<length (?x d # new)]"
      by simp
    then show ?thesis by blast
  qed
qed

lemma augment_with_zmf1_fresh:
  "augment_with_zmf1 es models gen = Inr z \<Longrightarrow> \<exists>new. z = es @ new \<and> fresh_ids es new"
  unfolding augment_with_zmf1_def fresh_ids_def
  by (cases models) (auto dest: augment_loop_appends)

lemma fresh_ids_distinct:
  assumes "distinct (map e_id es)" "fresh_ids es new"
  shows "distinct (map e_id (es @ new))" and "\<forall>x \<in> set new. \<forall>y \<in> set es. e_id y < e_id x"
proof -
  have ids: "map e_id new = map (\<lambda>j. next_id es + int j) [0..<length new]"
    using assms(2) by (simp add: fresh_ids_def)
  have ge: "next_id es \<le> e_id x" if "x \<in> set new" for x
  proof -
    from that have "e_id x \<in> set (map e_id new)" by simp
    then show ?thesis unfolding ids by auto
  qed
  show gt: "\<forall>x \<in> set new. \<forall>y \<in> set es. e_id y < e_id x"
    using ge next_id_gt by fastforce
  have "distinct (map (\<lambda>j. next_id es + int j) [0..<length new])"
    by (simp add: distinct_map inj_on_def)
  then have "distinct (map e_id new)" by (simp add: ids)
  moreover have "set (map e_id es) \<inter> set (map e_id new) = {}"
    using gt by fastforce
  ultimately show "distinct (map e_id (es @ new))"
    using assms(1) by simp
qed


lemma canonize_from_Cons:
  "canonize_from i (f # fs) spec = canonize_from i [f] spec @ canonize_from (Suc i) fs spec"
  by (simp add: Let_def split: option.splits)

lemma canonize_from_single:
  "e \<in> set (canonize_from i [f] spec) \<Longrightarrow> canonize_from i [f] spec = [e] \<and> e_id e = int i"
  by (auto simp: Let_def split: option.splits if_splits)

lemma canonize_from_frame:
  "e \<in> set (canonize_from i fs spec) \<Longrightarrow>
   \<exists>k < length fs. e_id e = int (i + k) \<and> canonize_from (i + k) [fs ! k] spec = [e]"
proof (induction fs arbitrary: i)
  case Nil
  then show ?case by simp
next
  case (Cons f fs)
  from Cons.prems consider (hd) "e \<in> set (canonize_from i [f] spec)"
    | (tl) "e \<in> set (canonize_from (Suc i) fs spec)"
    unfolding canonize_from_Cons [of i f fs] by auto
  then show ?case
  proof cases
    case hd
    from canonize_from_single [OF this]
    have "0 < length (f # fs) \<and> e_id e = int (i + 0) \<and> canonize_from (i + 0) [(f # fs) ! 0] spec = [e]"
      by simp
    then show ?thesis by blast
  next
    case tl
    from Cons.IH [OF this] obtain k where
      k: "k < length fs" "e_id e = int (Suc i + k)" "canonize_from (Suc i + k) [fs ! k] spec = [e]"
      by blast
    then have "Suc k < length (f # fs) \<and> e_id e = int (i + Suc k)
        \<and> canonize_from (i + Suc k) [(f # fs) ! Suc k] spec = [e]"
      by simp
    then show ?thesis by blast
  qed
qed

lemma canonize_frame_index:
  "e \<in> set (canonize frames spec) \<Longrightarrow>
   \<exists>k < length frames. e_id e = int k \<and> canonize_from k [frames ! k] spec = [e]"
  using canonize_from_frame [of e 0 frames spec] by (simp add: canonize_def)

text \<open>
  Claim C10 (id uniqueness). \<open>canonize\<close> assigns strictly increasing ids, each the
  index of the frame the record is made from. \<open>assemble_preset\<close>, \<open>segment_assembled\<close> and
  \<open>augment_with_zmf1\<close> (when it returns) only append records, and the ids of the
  records a stage appends are \<open>max(ids + [0]) + 1\<close> of the collection it received,
  incremented by one per append, hence greater than every id of that collection. So
  after the pipeline the ids are pairwise distinct and every appended record's id
  exceeds every id of the records \<open>canonize\<close> made.
\<close>

theorem pipeline_ids:
  assumes "c = canonize frames spec" and "a = assemble_preset c"
    and "s = segment_assembled a" and "augment_with_zmf1 s models gen = Inr z"
  shows "sorted_wrt (<) (map e_id c)
    \<and> (\<forall>e \<in> set c. 0 \<le> e_id e \<and> e_id e < int (length frames))
    \<and> (\<forall>e \<in> set c. \<exists>k < length frames.
          e_id e = int k \<and> canonize_from k [frames ! k] spec = [e])
    \<and> (\<exists>n1 n2 n3. a = c @ n1 \<and> s = a @ n2 \<and> z = s @ n3
          \<and> map e_id n1 = map (\<lambda>j. next_id c + int j) [0..<length n1]
          \<and> map e_id n2 = map (\<lambda>j. next_id a + int j) [0..<length n2]
          \<and> map e_id n3 = map (\<lambda>j. next_id s + int j) [0..<length n3])
    \<and> (\<forall>e \<in> set c. e_id e < next_id c) \<and> (\<forall>e \<in> set a. e_id e < next_id a)
    \<and> (\<forall>e \<in> set s. e_id e < next_id s)
    \<and> distinct (map e_id s) \<and> distinct (map e_id z)
    \<and> (\<forall>x \<in> set (drop (length c) z). \<forall>y \<in> set c. e_id y < e_id x)"
proof -
  note ci = canonize_from_ids [of 0 frames spec, folded canonize_def, folded assms(1)]
  from ci have sc: "sorted_wrt (<) (map e_id c)"
    and rc: "\<forall>e \<in> set c. 0 \<le> e_id e \<and> e_id e < int (length frames)"
    by simp_all
  have fi: "\<forall>e \<in> set c. \<exists>k < length frames.
          e_id e = int k \<and> canonize_from k [frames ! k] spec = [e]"
    unfolding assms(1) using canonize_frame_index by blast
  from sc have dc: "distinct (map e_id c)"
    by (rule sorted_wrt_less_distinct)
  from assemble_preset_fresh [of c] obtain n1 where
    n1: "a = c @ n1" "fresh_ids c n1" unfolding assms(2) by blast
  from segment_assembled_fresh [of a] obtain n2 where
    n2: "s = a @ n2" "fresh_ids a n2" unfolding assms(3) by blast
  from augment_with_zmf1_fresh [OF assms(4)] obtain n3 where
    n3: "z = s @ n3" "fresh_ids s n3" by blast
  note f1 = fresh_ids_distinct [OF dc n1(2)]
  from f1(1) have da: "distinct (map e_id a)" by (simp add: n1(1))
  note f2 = fresh_ids_distinct [OF da n2(2)]
  from f2(1) have ds: "distinct (map e_id s)" by (simp add: n2(1))
  note f3 = fresh_ids_distinct [OF ds n3(2)]
  from f3(1) have dz: "distinct (map e_id z)" by (simp add: n3(1))
  have "drop (length c) z = n1 @ n2 @ n3" by (simp add: n1(1) n2(1) n3(1))
  moreover have "\<forall>x \<in> set (n1 @ n2 @ n3). \<forall>y \<in> set c. e_id y < e_id x"
    using f1(2) f2(2) f3(2) by (auto simp: n1(1) n2(1))
  ultimately have syn: "\<forall>x \<in> set (drop (length c) z). \<forall>y \<in> set c. e_id y < e_id x"
    by simp
  have ex: "\<exists>n1 n2 n3. a = c @ n1 \<and> s = a @ n2 \<and> z = s @ n3
          \<and> map e_id n1 = map (\<lambda>j. next_id c + int j) [0..<length n1]
          \<and> map e_id n2 = map (\<lambda>j. next_id a + int j) [0..<length n2]
          \<and> map e_id n3 = map (\<lambda>j. next_id s + int j) [0..<length n3]"
    using n1 n2 n3 unfolding fresh_ids_def by blast
  have gt: "\<forall>e \<in> set c. e_id e < next_id c" "\<forall>e \<in> set a. e_id e < next_id a"
    "\<forall>e \<in> set s. e_id e < next_id s"
    using next_id_gt by blast+
  from sc rc fi ex gt ds dz syn show ?thesis by (intro conjI)
qed


lemma example_tests:
  "is_header \<lparr>e_id = i, e_type = 16, e_flags = 0, e_meta = Some (empty_meta\<lparr>family := Some 15, dev := Some 0, cmd := Some 16, sub := IntVal 1, validChecksum := Some True\<rparr>), e_data = d\<rparr>"
  "\<not> is_assembled \<lparr>e_id = i, e_type = 16, e_flags = 0, e_meta = Some (empty_meta\<lparr>family := Some 15, dev := Some 0, cmd := Some 16, sub := IntVal 1, validChecksum := Some True\<rparr>), e_data = d\<rparr>"
  "\<not> is_header \<lparr>e_id = i, e_type = 16, e_flags = 0, e_meta = Some (empty_meta\<lparr>family := Some 15, dev := Some 0, cmd := Some 16, sub := IntVal 2, validChecksum := Some True\<rparr>), e_data = d\<rparr>"
  "\<not> is_assembled \<lparr>e_id = i, e_type = 16, e_flags = 0, e_meta = Some (empty_meta\<lparr>family := Some 15, dev := Some 0, cmd := Some 16, sub := IntVal 2, validChecksum := Some True\<rparr>), e_data = d\<rparr>"
  "\<not> is_packet \<lparr>e_id = i, e_type = 16, e_flags = 0, e_meta = Some (empty_meta\<lparr>family := Some 15, dev := Some 0, cmd := Some 16, sub := IntVal 1, validChecksum := Some True\<rparr>), e_data = d\<rparr>"
  "is_packet \<lparr>e_id = i, e_type = 16, e_flags = 0, e_meta = Some (empty_meta\<lparr>family := Some 15, dev := Some 0, cmd := Some 16, sub := IntVal 2, validChecksum := Some True\<rparr>), e_data = x # y # z # d\<rparr>"
  by (simp_all add: is_header_def is_assembled_def is_packet_def sub_or_0_def get_sub_def)

text \<open>
  The theorem on a dump of four frames: a preset header with layer filter count 1, a
  frame of another device (dropped, so id 1 is not used), and two continuation packets
  of seven payload bytes each. The pipeline appends the assembled record (id 4), one
  layer filter record (id 5) and one coefficient record (id 6).
\<close>

theorem pipeline_ids_witness:
  "extract_frames [240, 24, 15, 0, 85, 16, 1, 0, 0, 0, 0, 0, 0, 0, 0, 0,
        0, 0, 0, 1, 0, 0, 0, 247, 0, 240, 126, 0, 247, 240, 24, 15,
        0, 85, 16, 2, 1, 65, 66, 67, 68, 69, 70, 71, 127, 247, 240, 24,
        15, 0, 85, 16, 2, 0, 33, 34, 35, 36, 37, 38, 39, 127, 247]
     = [[240, 24, 15, 0, 85, 16, 1, 0, 0, 0, 0, 0, 0, 0, 0, 0, 0, 0, 0, 1, 0, 0, 0, 247],
      [240, 126, 0, 247],
      [240, 24, 15, 0, 85, 16, 2, 1, 65, 66, 67, 68, 69, 70, 71, 127, 247],
      [240, 24, 15, 0, 85, 16, 2, 0, 33, 34, 35, 36, 37, 38, 39, 127, 247]]
   \<and> pipeline [240, 24, 15, 0, 85, 16, 1, 0, 0, 0, 0, 0, 0, 0, 0, 0,
        0, 0, 0, 1, 0, 0, 0, 247, 0, 240, 126, 0, 247, 240, 24, 15,
        0, 85, 16, 2, 1, 65, 66, 67, 68, 69, 70, 71, 127, 247, 240, 24,
        15, 0, 85, 16, 2, 0, 33, 34, 35, 36, 37, 38, 39, 127, 247]
       (Some \<lparr>manufacturerId = [24], familyId = Some 15, editor = Some 85, checksum_type = None\<rparr>)
       (Some (Some [(''vowel_pair'', ()), (''bell_pair'', ())])) (\<lambda>i m. Inr [90, 77, 70, 49])
     = Inr [\<lparr>e_id = 0, e_type = 16, e_flags = 0, e_meta = Some (empty_meta\<lparr>family := Some 15, dev := Some 0, cmd := Some 16, sub := IntVal 1, validChecksum := Some True\<rparr>), e_data = [1, 0, 0, 0, 0, 0, 0, 0, 0, 0, 0, 0, 0, 1, 0, 0, 0]\<rparr>,
     \<lparr>e_id = 2, e_type = 16, e_flags = 0, e_meta = Some (empty_meta\<lparr>family := Some 15, dev := Some 0, cmd := Some 16, sub := IntVal 2, validChecksum := Some True\<rparr>), e_data = [2, 1, 65, 66, 67, 68, 69, 70, 71, 127]\<rparr>,
     \<lparr>e_id = 3, e_type = 16, e_flags = 0, e_meta = Some (empty_meta\<lparr>family := Some 15, dev := Some 0, cmd := Some 16, sub := IntVal 2, validChecksum := Some True\<rparr>), e_data = [2, 0, 33, 34, 35, 36, 37, 38, 39, 127]\<rparr>,
     \<lparr>e_id = 4, e_type = 16, e_flags = 0, e_meta = Some (empty_meta\<lparr>sub := IntVal 254, assembled := Some True\<rparr>), e_data = [33, 34, 35, 36, 37, 38, 39, 65, 66, 67, 68, 69, 70, 71]\<rparr>,
     \<lparr>e_id = 5, e_type = 16, e_flags = 0, e_meta = Some (empty_meta\<lparr>sub := IntVal 34, heuristic := Some True, idx := Some 0\<rparr>), e_data = [33, 34, 35, 36, 37, 38, 39, 65, 66, 67, 68, 69, 70, 71]\<rparr>,
     \<lparr>e_id = 6, e_type = 23117, e_flags = 17969, e_meta = Some (empty_meta\<lparr>zmf1 := Some True, model := Some ''vowel_pair'', source_id := Some 5\<rparr>), e_data = [90, 77, 70, 49]\<rparr>]
   \<and> distinct (map e_id [\<lparr>e_id = 0, e_type = 16, e_flags = 0, e_meta = Some (empty_meta\<lparr>family := Some 15, dev := Some 0, cmd := Some 16, sub := IntVal 1, validChecksum := Some True\<rparr>), e_data = [1, 0, 0, 0, 0, 0, 0, 0, 0, 0, 0, 0, 0, 1, 0, 0, 0]\<rparr>,
     \<lparr>e_id = 2, e_type = 16, e_flags = 0, e_meta = Some (empty_meta\<lparr>family := Some 15, dev := Some 0, cmd := Some 16, sub := IntVal 2, validChecksum := Some True\<rparr>), e_data = [2, 1, 65, 66, 67, 68, 69, 70, 71, 127]\<rparr>,
     \<lparr>e_id = 3, e_type = 16, e_flags = 0, e_meta = Some (empty_meta\<lparr>family := Some 15, dev := Some 0, cmd := Some 16, sub := IntVal 2, validChecksum := Some True\<rparr>), e_data = [2, 0, 33, 34, 35, 36, 37, 38, 39, 127]\<rparr>,
     \<lparr>e_id = 4, e_type = 16, e_flags = 0, e_meta = Some (empty_meta\<lparr>sub := IntVal 254, assembled := Some True\<rparr>), e_data = [33, 34, 35, 36, 37, 38, 39, 65, 66, 67, 68, 69, 70, 71]\<rparr>,
     \<lparr>e_id = 5, e_type = 16, e_flags = 0, e_meta = Some (empty_meta\<lparr>sub := IntVal 34, heuristic := Some True, idx := Some 0\<rparr>), e_data = [33, 34, 35, 36, 37, 38, 39, 65, 66, 67, 68, 69, 70, 71]\<rparr>,
     \<lparr>e_id = 6, e_type = 23117, e_flags = 17969, e_meta = Some (empty_meta\<lparr>zmf1 := Some True, model := Some ''vowel_pair'', source_id := Some 5\<rparr>), e_data = [90, 77, 70, 49]\<rparr>])"
proof -
  let ?raw = "[240, 24, 15, 0, 85, 16, 1, 0, 0, 0, 0, 0, 0, 0, 0, 0,
        0, 0, 0, 1, 0, 0, 0, 247, 0, 240, 126, 0, 247, 240, 24, 15,
        0, 85, 16, 2, 1, 65, 66, 67, 68, 69, 70, 71, 127, 247, 240, 24,
        15, 0, 85, 16, 2, 0, 33, 34, 35, 36, 37, 38, 39, 127, 247] :: byte list"
  let ?frames = "[[240, 24, 15, 0, 85, 16, 1, 0, 0, 0, 0, 0, 0, 0, 0, 0, 0, 0, 0, 1, 0, 0, 0, 247],
      [240, 126, 0, 247],
      [240, 24, 15, 0, 85, 16, 2, 1, 65, 66, 67, 68, 69, 70, 71, 127, 247],
      [240, 24, 15, 0, 85, 16, 2, 0, 33, 34, 35, 36, 37, 38, 39, 127, 247]] :: byte list list"
  let ?spec = "Some \<lparr>manufacturerId = [24], familyId = Some 15, editor = Some 85, checksum_type = None\<rparr>"
  let ?models = "(Some (Some [(''vowel_pair'', ()), (''bell_pair'', ())])) :: (string \<times> unit) list option option"
  let ?gen = "(\<lambda>i m. Inr [90, 77, 70, 49]) :: nat \<Rightarrow> unit \<Rightarrow> error + byte list"
  let ?c = "[\<lparr>e_id = 0, e_type = 16, e_flags = 0, e_meta = Some (empty_meta\<lparr>family := Some 15, dev := Some 0, cmd := Some 16, sub := IntVal 1, validChecksum := Some True\<rparr>), e_data = [1, 0, 0, 0, 0, 0, 0, 0, 0, 0, 0, 0, 0, 1, 0, 0, 0]\<rparr>,
     \<lparr>e_id = 2, e_type = 16, e_flags = 0, e_meta = Some (empty_meta\<lparr>family := Some 15, dev := Some 0, cmd := Some 16, sub := IntVal 2, validChecksum := Some True\<rparr>), e_data = [2, 1, 65, 66, 67, 68, 69, 70, 71, 127]\<rparr>,
     \<lparr>e_id = 3, e_type = 16, e_flags = 0, e_meta = Some (empty_meta\<lparr>family := Some 15, dev := Some 0, cmd := Some 16, sub := IntVal 2, validChecksum := Some True\<rparr>), e_data = [2, 0, 33, 34, 35, 36, 37, 38, 39, 127]\<rparr>]"
  let ?a = "[\<lparr>e_id = 0, e_type = 16, e_flags = 0, e_meta = Some (empty_meta\<lparr>family := Some 15, dev := Some 0, cmd := Some 16, sub := IntVal 1, validChecksum := Some True\<rparr>), e_data = [1, 0, 0, 0, 0, 0, 0, 0, 0, 0, 0, 0, 0, 1, 0, 0, 0]\<rparr>,
     \<lparr>e_id = 2, e_type = 16, e_flags = 0, e_meta = Some (empty_meta\<lparr>family := Some 15, dev := Some 0, cmd := Some 16, sub := IntVal 2, validChecksum := Some True\<rparr>), e_data = [2, 1, 65, 66, 67, 68, 69, 70, 71, 127]\<rparr>,
     \<lparr>e_id = 3, e_type = 16, e_flags = 0, e_meta = Some (empty_meta\<lparr>family := Some 15, dev := Some 0, cmd := Some 16, sub := IntVal 2, validChecksum := Some True\<rparr>), e_data = [2, 0, 33, 34, 35, 36, 37, 38, 39, 127]\<rparr>,
     \<lparr>e_id = 4, e_type = 16, e_flags = 0, e_meta = Some (empty_meta\<lparr>sub := IntVal 254, assembled := Some True\<rparr>), e_data = [33, 34, 35, 36, 37, 38, 39, 65, 66, 67, 68, 69, 70, 71]\<rparr>]"
  let ?s = "[\<lparr>e_id = 0, e_type = 16, e_flags = 0, e_meta = Some (empty_meta\<lparr>family := Some 15, dev := Some 0, cmd := Some 16, sub := IntVal 1, validChecksum := Some True\<rparr>), e_data = [1, 0, 0, 0, 0, 0, 0, 0, 0, 0, 0, 0, 0, 1, 0, 0, 0]\<rparr>,
     \<lparr>e_id = 2, e_type = 16, e_flags = 0, e_meta = Some (empty_meta\<lparr>family := Some 15, dev := Some 0, cmd := Some 16, sub := IntVal 2, validChecksum := Some True\<rparr>), e_data = [2, 1, 65, 66, 67, 68, 69, 70, 71, 127]\<rparr>,
     \<lparr>e_id = 3, e_type = 16, e_flags = 0, e_meta = Some (empty_meta\<lparr>family := Some 15, dev := Some 0, cmd := Some 16, sub := IntVal 2, validChecksum := Some True\<rparr>), e_data = [2, 0, 33, 34, 35, 36, 37, 38, 39, 127]\<rparr>,
     \<lparr>e_id = 4, e_type = 16, e_flags = 0, e_meta = Some (empty_meta\<lparr>sub := IntVal 254, assembled := Some True\<rparr>), e_data = [33, 34, 35, 36, 37, 38, 39, 65, 66, 67, 68, 69, 70, 71]\<rparr>,
     \<lparr>e_id = 5, e_type = 16, e_flags = 0, e_meta = Some (empty_meta\<lparr>sub := IntVal 34, heuristic := Some True, idx := Some 0\<rparr>), e_data = [33, 34, 35, 36, 37, 38, 39, 65, 66, 67, 68, 69, 70, 71]\<rparr>]"
  let ?z = "[\<lparr>e_id = 0, e_type = 16, e_flags = 0, e_meta = Some (empty_meta\<lparr>family := Some 15, dev := Some 0, cmd := Some 16, sub := IntVal 1, validChecksum := Some True\<rparr>), e_data = [1, 0, 0, 0, 0, 0, 0, 0, 0, 0, 0, 0, 0, 1, 0, 0, 0]\<rparr>,
     \<lparr>e_id = 2, e_type = 16, e_flags = 0, e_meta = Some (empty_meta\<lparr>family := Some 15, dev := Some 0, cmd := Some 16, sub := IntVal 2, validChecksum := Some True\<rparr>), e_data = [2, 1, 65, 66, 67, 68, 69, 70, 71, 127]\<rparr>,
     \<lparr>e_id = 3, e_type = 16, e_flags = 0, e_meta = Some (empty_meta\<lparr>family := Some 15, dev := Some 0, cmd := Some 16, sub := IntVal 2, validChecksum := Some True\<rparr>), e_data = [2, 0, 33, 34, 35, 36, 37, 38, 39, 127]\<rparr>,
     \<lparr>e_id = 4, e_type = 16, e_flags = 0, e_meta = Some (empty_meta\<lparr>sub := IntVal 254, assembled := Some True\<rparr>), e_data = [33, 34, 35, 36, 37, 38, 39, 65, 66, 67, 68, 69, 70, 71]\<rparr>,
     \<lparr>e_id = 5, e_type = 16, e_flags = 0, e_meta = Some (empty_meta\<lparr>sub := IntVal 34, heuristic := Some True, idx := Some 0\<rparr>), e_data = [33, 34, 35, 36, 37, 38, 39, 65, 66, 67, 68, 69, 70, 71]\<rparr>,
     \<lparr>e_id = 6, e_type = 23117, e_flags = 17969, e_meta = Some (empty_meta\<lparr>zmf1 := Some True, model := Some ''vowel_pair'', source_id := Some 5\<rparr>), e_data = [90, 77, 70, 49]\<rparr>]"
  have x: "extract_frames ?raw = ?frames"
    by simp
  have c: "canonize ?frames ?spec = ?c"
    by (simp add: canonize_def proteus_parse_def meta_of_parsed_def)
  have p: "collect_parts ?c [] = [(130, [65, 66, 67, 68, 69, 70, 71]), (2, [33, 34, 35, 36, 37, 38, 39])]"
    by (simp add: example_tests seq_of_def payload_of_def)
  have a: "assemble_preset ?c = ?a"
    unfolding assemble_preset_def Let_def p by (simp add: next_id_def)
  have f: "find is_header ?a = Some (?a ! 0)" "find is_assembled ?a = Some (?a ! 3)"
    by (simp_all add: example_tests find_examples)
  have s: "segment_assembled ?a = ?s"
    unfolding segment_assembled_def f
    by (simp add: parse_preset_header_blob_def next_id_def slice_def upt_rec Let_def)
  have z: "augment_with_zmf1 ?s ?models ?gen = Inr ?z"
    by (simp add: augment_with_zmf1_def get_sub_def model_names_def next_id_def)
  have pl: "pipeline ?raw ?spec ?models ?gen = Inr ?z"
    unfolding pipeline_def x c a s by (rule z)
  from pipeline_ids [OF c [symmetric] a [symmetric] s [symmetric] z]
  have d: "distinct (map e_id ?z)" by blast
  from x pl d show ?thesis by (intro conjI)
qed

end
